theory Spec2Isabelle
  imports Complex_Main "HOL-Library.Word" "HOL-Library.Log_Nat"
begin

unbundle bit_operations_syntax

section \<open>IEEE 754 arithmetic as used by \<open>compute_peaks\<close>\<close>

text \<open>
  The function under study, \<^verbatim>\<open>compute_peaks\<close> of \<^verbatim>\<open>src/wasm/peaks.cpp\<close>, works on
  \<^verbatim>\<open>float\<close> samples (IEEE 754 binary32) and derives its bucket bounds in \<^verbatim>\<open>double\<close>
  (binary64). A floating-point datum is modelled by its value: not-a-number, an infinity
  with its sign (\<open>True\<close> for negative), or a finite rational. The sign of a zero is
  dropped: the program only compares values, multiplies them by positive finite
  constants and truncates them to integers, and none of these tells \<open>-0.0\<close> from \<open>0.0\<close>.
  The default rounding mode (to nearest, ties to even) is assumed, and expressions are
  evaluated in the precision of their type.
\<close>

datatype fval = NaN | Inf bool | Fin rat

text \<open>
  \<open>ilog2 x\<close> is the exponent \<open>e\<close> with \<open>2^e \<le> x < 2^(e+1)\<close>, for positive \<open>x\<close>,
  found from the numbers of binary digits of the numerator and the denominator.
\<close>

definition ilog2 :: "rat \<Rightarrow> int" where
  "ilog2 x =
     (let (a, b) = quotient_of x;
          k = bitlen a - bitlen b
      in if 2 powi k \<le> x then k else k - 1)"

text \<open>The nearest integer, a tie going to the even neighbour.\<close>

definition round_even :: "rat \<Rightarrow> int" where
  "round_even y =
     (let f = \<lfloor>y\<rfloor>; d = y - of_int f
      in if d < 1 / 2 then f
         else if 1 / 2 < d then f + 1
         else if even f then f else f + 1)"

text \<open>
  Rounding of an exact result \<open>x\<close> into a binary format with \<open>p\<close> significant bits, least
  exponent \<open>elo\<close> of the last place (subnormal numbers) and overflow threshold
  \<open>2^ehi\<close>. The result is \<open>m * 2^e\<close>, the multiple of \<open>2^e\<close> nearest to \<open>x\<close>, where \<open>e\<close>
  is the exponent of the last place in the binade of \<open>x\<close>. It overflows to an infinity
  when \<open>\<bar>m\<bar> * 2^e\<close> reaches \<open>2^ehi\<close>, that is when \<open>\<bar>m\<bar>\<close> has more than \<open>ehi - e\<close>
  binary digits.
\<close>

definition round_to :: "int \<Rightarrow> int \<Rightarrow> int \<Rightarrow> rat \<Rightarrow> fval" where
  "round_to p elo ehi x =
     (if x = 0 then Fin 0
      else let e = max elo (ilog2 \<bar>x\<bar> - (p - 1));
               m = round_even (x / 2 powi e)
           in if ehi < e + bitlen \<bar>m\<bar> then Inf (x < 0) else Fin (of_int m * 2 powi e))"

definition round32 :: "rat \<Rightarrow> fval" where
  "round32 = round_to 24 (- 149) 128"

definition round64 :: "rat \<Rightarrow> fval" where
  "round64 = round_to 53 (- 1074) 1024"

text \<open>The value of a \<^verbatim>\<open>float\<close> from its 32 bits: sign, 8 exponent bits, 23 fraction bits.\<close>

definition valof32 :: "32 word \<Rightarrow> fval" where
  "valof32 w =
     (let s = bit w 31;
          e = uint (take_bit 8 (drop_bit 23 w));
          m = uint (take_bit 23 w)
      in if e = 255 then (if m = 0 then Inf s else NaN)
         else let q = (if e = 0 then of_int m * 2 powi (- 149)
                       else of_int (8388608 + m) * 2 powi (e - 150))
              in Fin (if s then - q else q))"

text \<open>The product of two floating-point values, rounded by \<open>rnd\<close>.\<close>

fun fmul :: "(rat \<Rightarrow> fval) \<Rightarrow> fval \<Rightarrow> fval \<Rightarrow> fval" where
  "fmul rnd NaN y = NaN"
| "fmul rnd x NaN = NaN"
| "fmul rnd (Inf s) (Inf t) = Inf (s \<noteq> t)"
| "fmul rnd (Inf s) (Fin b) = (if b = 0 then NaN else Inf (s \<noteq> (b < 0)))"
| "fmul rnd (Fin a) (Inf t) = (if a = 0 then NaN else Inf ((a < 0) \<noteq> t))"
| "fmul rnd (Fin a) (Fin b) = rnd (a * b)"

text \<open>The comparison \<^verbatim>\<open><\<close> of two floating-point values: false as soon as one is NaN.\<close>

fun flt :: "fval \<Rightarrow> fval \<Rightarrow> bool" where
  "flt NaN y = False"
| "flt x NaN = False"
| "flt (Inf s) (Inf t) = (s \<and> \<not> t)"
| "flt (Inf s) (Fin b) = s"
| "flt (Fin a) (Inf t) = (\<not> t)"
| "flt (Fin a) (Fin b) = (a < b)"

section \<open>Integers and conversions\<close>

text \<open>
  \<^verbatim>\<open>int\<close> and \<^verbatim>\<open>int32_t\<close> are 32-bit two's complement integers. The arithmetic of the
  function is signed: the language leaves an overflow undefined, and the machine
  instructions the function is compiled to wrap around. The function has no exit after
  its guard, so the model goes on with the wrapped value.
\<close>

definition in_int32 :: "int \<Rightarrow> bool" where
  "in_int32 i \<longleftrightarrow> - 2147483648 \<le> i \<and> i \<le> 2147483647"

definition wrap32 :: "int \<Rightarrow> int" where
  "wrap32 i = (i + 2147483648) mod 4294967296 - 2147483648"

text \<open>Signed addition and multiplication of two \<^verbatim>\<open>int\<close>s.\<close>

definition int_add :: "int \<Rightarrow> int \<Rightarrow> int" where
  "int_add a b = wrap32 (a + b)"

definition int_mul :: "int \<Rightarrow> int \<Rightarrow> int" where
  "int_mul a b = wrap32 (a * b)"

text \<open>Truncation toward zero.\<close>

definition trunc :: "rat \<Rightarrow> int" where
  "trunc x = (if 0 \<le> x then \<lfloor>x\<rfloor> else \<lceil>x\<rceil>)"

text \<open>
  \<^verbatim>\<open>static_cast<int>\<close> and \<^verbatim>\<open>static_cast<int32_t>\<close> of a floating-point value: the value
  truncated toward zero when that is an \<^verbatim>\<open>int32_t\<close>. For a NaN, an infinity and a value
  that is out of range once truncated the language leaves the conversion undefined; the
  function goes on with the 32 bits that the conversion instruction of the target
  leaves, which the model takes as a parameter, the \<open>platform\<close>. The instruction
  \<^verbatim>\<open>cvttss2si\<close> of x86 leaves the bits \<^verbatim>\<open>0x80000000\<close>, the integer \<open>-2^31\<close>, whatever the
  operand: this is the platform \<open>indefinite\<close>.
\<close>

type_synonym platform = "fval \<Rightarrow> 32 word"

definition f2i :: "platform \<Rightarrow> fval \<Rightarrow> int" where
  "f2i pf x =
     (case x of
        Fin q \<Rightarrow> if in_int32 (trunc q) then trunc q else sint (pf x)
      | _ \<Rightarrow> sint (pf x))"

definition indefinite :: platform where
  "indefinite x = 0x80000000"

text \<open>\<^verbatim>\<open>static_cast<double>\<close> of an \<^verbatim>\<open>int\<close> is exact: every 32-bit integer is a binary64 number.\<close>

definition double_of_int :: "int \<Rightarrow> fval" where
  "double_of_int i = Fin (of_int i)"

text \<open>\<^verbatim>\<open>static_cast<int16_t>\<close> of an \<^verbatim>\<open>int32_t\<close> keeps the low 16 bits.\<close>

definition int16_of_int :: "int \<Rightarrow> 16 word" where
  "int16_of_int i = word_of_int i"

section \<open>The function \<open>compute_peaks\<close>\<close>

text \<open>
  The two buffers are memory indexed from the pointer the caller passes; a null pointer
  is \<open>None\<close>. Besides the contents of the output buffer, the state of a call records the
  sample indices read and the output entries written (index, and the \<^verbatim>\<open>int32_t\<close> value
  handed to the narrowing store), in the order of the accesses. The two types \<^verbatim>\<open>float\<close>
  and \<^verbatim>\<open>int16_t\<close> cannot alias, so a store never changes a sample.
\<close>

record state =
  out :: "int \<Rightarrow> 16 word"
  reads :: "int list"
  writes :: "(int \<times> int) list"

definition store :: "int \<Rightarrow> int \<Rightarrow> state \<Rightarrow> state" where
  "store i v st = st\<lparr>out := (out st)(i := int16_of_int v), writes := writes st @ [(i, v)]\<rparr>"

text \<open>Line 12: \<^verbatim>\<open>samplesPerBucket = static_cast<double>(len) / static_cast<double>(buckets)\<close>,
  for a divisor that is not zero.\<close>

definition samplesPerBucket :: "int \<Rightarrow> int \<Rightarrow> fval" where
  "samplesPerBucket len buckets = round64 (of_int len / of_int buckets)"

text \<open>Lines 15 to 22: the index range of a bucket.\<close>

definition bucket_range :: "platform \<Rightarrow> int \<Rightarrow> fval \<Rightarrow> int \<Rightarrow> int \<times> int" where
  "bucket_range pf len spb bucket =
     (let startIndex = f2i pf (fmul round64 (double_of_int bucket) spb);
          endIndex = f2i pf (fmul round64 (double_of_int (int_add bucket 1)) spb);
          endIndex' = (if endIndex \<le> startIndex then int_add startIndex 1 else endIndex);
          endIndex'' = (if len < endIndex' then len else endIndex')
      in (startIndex, endIndex''))"

text \<open>Lines 26 to 30: the scan of the samples \<open>i, i + 1, \<dots>, endIndex - 1\<close>.\<close>

function scan :: "(int \<Rightarrow> 32 word) \<Rightarrow> int \<Rightarrow> int \<Rightarrow> fval \<times> fval \<times> int list \<Rightarrow> fval \<times> fval \<times> int list" where
  "scan samples i endIndex (minVal, maxVal, rs) =
     (if i < endIndex then
        let v = valof32 (samples i);
            minVal' = (if flt v minVal then v else minVal);
            maxVal' = (if flt maxVal v then v else maxVal)
        in scan samples (i + 1) endIndex (minVal', maxVal', rs @ [i])
      else (minVal, maxVal, rs))"
  by pat_completeness auto
termination
  by (relation "measure (\<lambda>(samples, i, endIndex, acc). nat (endIndex - i))") auto

declare scan.simps [simp del]

text \<open>Lines 35 and 36: \<^verbatim>\<open>std::min<int32_t>(32767, std::max<int32_t>(-32768, x))\<close>.\<close>

definition clamp16 :: "int \<Rightarrow> int" where
  "clamp16 x = min 32767 (max (- 32768) x)"

text \<open>
  Lines 15 to 36: the body of the loop over the buckets. Nothing in it leaves the loop:
  whatever the two conversions of lines 32 and 33 give, the two stores of lines 35 and
  36 follow.
\<close>

definition bucket_body :: "platform \<Rightarrow> (int \<Rightarrow> 32 word) \<Rightarrow> int \<Rightarrow> fval \<Rightarrow> int \<Rightarrow> state \<Rightarrow> state" where
  "bucket_body pf samples len spb bucket st =
     (let (startIndex, endIndex) = bucket_range pf len spb bucket;
          (minVal, maxVal, rs) = scan samples startIndex endIndex (Fin 1, Fin (- 1), reads st);
          scaledMin = f2i pf (fmul round32 minVal (Fin 32768));
          scaledMax = f2i pf (fmul round32 maxVal (Fin 32767));
          st1 = store (int_mul bucket 2) (clamp16 scaledMin) (st\<lparr>reads := rs\<rparr>)
      in store (int_add (int_mul bucket 2) 1) (clamp16 scaledMax) st1)"

text \<open>Line 14: the loop over the buckets, from \<open>bucket\<close> on.\<close>

function bucket_loop :: "platform \<Rightarrow> (int \<Rightarrow> 32 word) \<Rightarrow> int \<Rightarrow> int \<Rightarrow> fval \<Rightarrow> int \<Rightarrow> state \<Rightarrow> state" where
  "bucket_loop pf samples len buckets spb bucket st =
     (if bucket < buckets then
        bucket_loop pf samples len buckets spb (bucket + 1) (bucket_body pf samples len spb bucket st)
      else st)"
  by pat_completeness auto
termination
  by (relation "measure (\<lambda>(pf, samples, len, buckets, spb, bucket, st). nat (buckets - bucket))") auto

declare bucket_loop.simps [simp del]

text \<open>
  The function. It returns nothing and has no way to signal an error; the result of
  the model is the state of the output buffer with the accesses made, \<open>None\<close> when the
  pointer \<open>outMinMax\<close> is null.
\<close>

definition fresh :: "(int \<Rightarrow> 16 word) \<Rightarrow> state" where
  "fresh buf = \<lparr>out = buf, reads = [], writes = []\<rparr>"

definition compute_peaks ::
  "platform \<Rightarrow> (int \<Rightarrow> 32 word) option \<Rightarrow> 32 word \<Rightarrow> 32 word \<Rightarrow> (int \<Rightarrow> 16 word) option \<Rightarrow> state option" where
  "compute_peaks pf samples len buckets outMinMax =
     (if samples = None \<or> outMinMax = None \<or> sint len \<le> 0 \<or> sint buckets \<le> 0
      then map_option fresh outMinMax
      else Some (bucket_loop pf (the samples) (sint len) (sint buckets)
                   (samplesPerBucket (sint len) (sint buckets)) 0 (fresh (the outMinMax))))"

section \<open>Notions used to state the properties\<close>

text \<open>A call is valid when both counts are positive \<^verbatim>\<open>int\<close>s.\<close>

definition valid :: "int \<Rightarrow> int \<Rightarrow> bool" where
  "valid len buckets \<longleftrightarrow> 0 < len \<and> len \<le> 2147483647 \<and> 0 < buckets \<and> buckets \<le> 2147483647"

text \<open>The unit roundoff of binary64.\<close>

definition u64 :: rat where "u64 = 2 powi (- 53)"

text \<open>
  \<open>edge len n b\<close> is the index \<^verbatim>\<open>static_cast<int>(b * samplesPerBucket)\<close>, for a product
  that is a finite number.
\<close>

definition edge :: "int \<Rightarrow> int \<Rightarrow> int \<Rightarrow> int" where
  "edge len n b =
     (case fmul round64 (double_of_int b) (samplesPerBucket len n) of
        Fin t \<Rightarrow> trunc t | _ \<Rightarrow> 0)"

text \<open>
  The specification's reading of the scan (section 4.1, step c): the minimum and the
  maximum of the values seen, started at \<open>1.0\<close> and \<open>-1.0\<close>, as two folds over the
  samples of the range.
\<close>

definition lower :: "fval \<Rightarrow> fval \<Rightarrow> fval" where
  "lower m v = (if flt v m then v else m)"

definition upper :: "fval \<Rightarrow> fval \<Rightarrow> fval" where
  "upper m v = (if flt m v then v else m)"

definition spec_extremes :: "(int \<Rightarrow> 32 word) \<Rightarrow> int \<Rightarrow> int \<Rightarrow> fval \<times> fval" where
  "spec_extremes samples s e =
     (let vs = map (\<lambda>i. valof32 (samples i)) [s..e - 1]
      in (foldl lower (Fin 1) vs, foldl upper (Fin (- 1)) vs))"

text \<open>
  The specification's reading of the scaling (steps d and e): each extreme is multiplied
  by its scale factor, rounded toward zero and clamped. The pair is \<open>None\<close> when a
  product is not a finite number.
\<close>

definition spec_scaled :: "fval \<times> fval \<Rightarrow> (int \<times> int) option" where
  "spec_scaled mm =
     (case (fmul round32 (fst mm) (Fin 32768), fmul round32 (snd mm) (Fin 32767)) of
        (Fin a, Fin b) \<Rightarrow> Some (clamp16 (trunc a), clamp16 (trunc b))
      | _ \<Rightarrow> None)"

text \<open>The comparison \<^verbatim>\<open><=\<close> of two floating-point values.\<close>

fun fle :: "fval \<Rightarrow> fval \<Rightarrow> bool" where
  "fle NaN y = False"
| "fle x NaN = False"
| "fle (Inf s) (Inf t) = (s \<or> \<not> t)"
| "fle (Inf s) (Fin b) = s"
| "fle (Fin a) (Inf t) = (\<not> t)"
| "fle (Fin a) (Fin b) = (a \<le> b)"

text \<open>The contents of a buffer after a list of stores, and a state after more accesses.\<close>

definition replay :: "(int \<Rightarrow> 16 word) \<Rightarrow> (int \<times> int) list \<Rightarrow> int \<Rightarrow> 16 word" where
  "replay buf ws = foldl (\<lambda>f (i, v). f(i := int16_of_int v)) buf ws"

definition after :: "state \<Rightarrow> int list \<Rightarrow> (int \<times> int) list \<Rightarrow> state" where
  "after st rs ws = \<lparr>out = replay (out st) ws, reads = reads st @ rs, writes = writes st @ ws\<rparr>"

text \<open>
  The accesses of one bucket, and of the loop from a bucket on: what the code does when
  started on a state without accesses.
\<close>

definition bucket_effect ::
  "platform \<Rightarrow> (int \<Rightarrow> 32 word) \<Rightarrow> int \<Rightarrow> fval \<Rightarrow> int \<Rightarrow> int list \<times> (int \<times> int) list" where
  "bucket_effect pf samples len spb b =
     (let st = bucket_body pf samples len spb b (fresh (\<lambda>i. 0)) in (reads st, writes st))"

definition loop_effect ::
  "platform \<Rightarrow> (int \<Rightarrow> 32 word) \<Rightarrow> int \<Rightarrow> int \<Rightarrow> fval \<Rightarrow> int \<Rightarrow> int list \<times> (int \<times> int) list" where
  "loop_effect pf samples len n spb b =
     (let st = bucket_loop pf samples len n spb b (fresh (\<lambda>i. 0)) in (reads st, writes st))"

definition entries :: "platform \<Rightarrow> (int \<Rightarrow> 32 word) \<Rightarrow> int \<Rightarrow> fval \<Rightarrow> int \<Rightarrow> (int \<times> int) list" where
  "entries pf samples len spb b = snd (bucket_effect pf samples len spb b)"

text \<open>
  The two values a bucket stores, from the extremes of its range: the conversions of
  lines 32 and 33 and the clamps of lines 35 and 36.
\<close>

definition scaled :: "platform \<Rightarrow> fval \<times> fval \<Rightarrow> int \<times> int" where
  "scaled pf mm =
     (clamp16 (f2i pf (fmul round32 (fst mm) (Fin 32768))),
      clamp16 (f2i pf (fmul round32 (snd mm) (Fin 32767))))"

text \<open>
  A conversion to \<^verbatim>\<open>int32_t\<close> that the language defines: the operand is finite and,
  truncated, an \<^verbatim>\<open>int32_t\<close>.
\<close>

definition convertible :: "fval \<Rightarrow> bool" where
  "convertible x = (case x of Fin q \<Rightarrow> in_int32 (trunc q) | _ \<Rightarrow> False)"

text \<open>
  The numbers of a binary format with \<open>p\<close> significant bits and least exponent \<open>elo\<close>.
\<close>

definition representable :: "int \<Rightarrow> int \<Rightarrow> rat \<Rightarrow> bool" where
  "representable p elo q \<longleftrightarrow> (\<exists>m e. q = of_int m * 2 powi e \<and> \<bar>m\<bar> < 2 ^ nat p \<and> elo \<le> e)"

text \<open>
  A sample of moderate size: not-a-number, or finite and of magnitude at most 65535.
  Scaled by 32768 or 32767 it stays inside the range of \<^verbatim>\<open>int32_t\<close>.
\<close>

definition moderate :: "fval \<Rightarrow> bool" where
  "moderate v = (case v of NaN \<Rightarrow> True | Inf s \<Rightarrow> False | Fin q \<Rightarrow> \<bar>q\<bar> \<le> 65535)"

text \<open>A sample memory that holds the list \<open>xs\<close> at the indices \<open>0, \<dots>, length xs - 1\<close>.\<close>

definition buffer :: "'a list \<Rightarrow> (int \<Rightarrow> 'a) \<Rightarrow> int \<Rightarrow> 'a" where
  "buffer xs rest i = (if 0 \<le> i \<and> i < int (length xs) then xs ! nat i else rest i)"

section \<open>Rounding\<close>

lemma pow2_pos [simp]: "0 < (2::rat) powi k"
  by simp

lemma pow2_add: "(2::rat) powi (a + b) = 2 powi a * 2 powi b"
  by (simp add: power_int_add)

lemma pow2_diff: "(2::rat) powi (a - b) = 2 powi a / 2 powi b"
  by (simp add: power_int_diff)

lemma pow2_mono: "a \<le> b \<Longrightarrow> (2::rat) powi a \<le> 2 powi b"
  by (simp add: power_int_increasing)

lemma pow2_strict_mono: "a < b \<Longrightarrow> (2::rat) powi a < 2 powi b"
  by (simp add: power_int_strict_increasing)

lemma bitlen_rat_bounds:
  assumes "0 < a"
  shows "(2::rat) powi (bitlen a - 1) \<le> of_int a" and "of_int a < (2::rat) powi bitlen a"
proof -
  from assms have b1: "1 \<le> bitlen a"
    using bitlen_eq_zero_iff [of a] bitlen_nonneg [of a] by linarith
  from bitlen_bounds [OF assms]
  have lo: "2 ^ nat (bitlen a - 1) \<le> a" and hi: "a < 2 ^ nat (bitlen a)" by simp_all
  have "(2::rat) powi (bitlen a - 1) = 2 ^ nat (bitlen a - 1)"
    using b1 by (simp add: power_int_def)
  also have "\<dots> = of_int (2 ^ nat (bitlen a - 1))" by simp
  also have "\<dots> \<le> of_int a" using lo by (simp only: of_int_le_iff)
  finally show "(2::rat) powi (bitlen a - 1) \<le> of_int a" .
  have "(of_int a :: rat) < of_int (2 ^ nat (bitlen a))" using hi by (simp only: of_int_less_iff)
  also have "\<dots> = 2 ^ nat (bitlen a)" by simp
  also have "\<dots> = (2::rat) powi bitlen a"
    using b1 by (simp add: power_int_def)
  finally show "of_int a < (2::rat) powi bitlen a" .
qed

lemma ilog2_bounds:
  assumes "0 < x"
  shows "2 powi ilog2 x \<le> x" and "x < 2 powi (ilog2 x + 1)"
proof -
  obtain a b where q: "quotient_of x = (a, b)" by (cases "quotient_of x")
  then have b: "0 < b" and x: "x = of_int a / of_int b"
    by (simp_all add: quotient_of_denom_pos quotient_of_div)
  from assms x b have a: "0 < a"
    by (simp add: zero_less_divide_iff)
  define k where "k = bitlen a - bitlen b"
  have il: "ilog2 x = (if 2 powi k \<le> x then k else k - 1)"
    by (simp add: ilog2_def q k_def Let_def)
  have bpos: "(0::rat) < of_int b" using b by simp
  have "x < 2 powi bitlen a / of_int b"
    unfolding x using bitlen_rat_bounds(2) [OF a] bpos by (simp add: divide_strict_right_mono)
  also have "\<dots> \<le> 2 powi bitlen a / 2 powi (bitlen b - 1)"
    using bitlen_rat_bounds(1) [OF b] bpos by (intro divide_left_mono mult_pos_pos) simp_all
  also have "\<dots> = 2 powi (bitlen a - (bitlen b - 1))"
    by (simp only: pow2_diff)
  also have "bitlen a - (bitlen b - 1) = k + 1"
    by (simp add: k_def)
  finally have up: "x < 2 powi (k + 1)" .
  have "k - 1 = (bitlen a - 1) - bitlen b"
    by (simp add: k_def)
  then have "(2::rat) powi (k - 1) = 2 powi (bitlen a - 1) / 2 powi bitlen b"
    by (simp only: pow2_diff)
  also have "\<dots> \<le> of_int a / 2 powi bitlen b"
    using bitlen_rat_bounds(1) [OF a] by (simp add: divide_right_mono)
  also have "\<dots> \<le> of_int a / of_int b"
    using bitlen_rat_bounds(2) [OF b] a bpos by (intro divide_left_mono) simp_all
  finally have lo: "2 powi (k - 1) \<le> x" by (simp add: x)
  show "2 powi ilog2 x \<le> x" using lo by (simp add: il)
  show "x < 2 powi (ilog2 x + 1)" using up by (simp add: il not_le)
qed

lemma round_even_error: "\<bar>of_int (round_even y) - y\<bar> \<le> 1 / 2"
proof -
  have "of_int \<lfloor>y\<rfloor> \<le> y" "y < of_int \<lfloor>y\<rfloor> + 1" by linarith+
  then show ?thesis
    unfolding round_even_def Let_def by (auto simp: abs_le_iff)
qed

lemma round_even_of_int [simp]: "round_even (of_int n) = n"
  by (simp add: round_even_def)

lemma round_even_mono_int: "of_int n \<le> y \<Longrightarrow> n \<le> round_even y"
proof -
  assume "of_int n \<le> y"
  then have "n \<le> \<lfloor>y\<rfloor>" by (simp add: le_floor_iff)
  then show ?thesis unfolding round_even_def Let_def by auto
qed

lemma round_even_le_int: "y \<le> of_int n \<Longrightarrow> round_even y \<le> n"
proof -
  assume le: "y \<le> of_int n"
  then have f: "\<lfloor>y\<rfloor> \<le> n" using floor_mono [of y "of_int n"] by simp
  show ?thesis
  proof (cases "\<lfloor>y\<rfloor> = n")
    case True
    with le have "y = of_int n" by linarith
    then show ?thesis by simp
  next
    case False
    with f have "\<lfloor>y\<rfloor> + 1 \<le> n" by simp
    then show ?thesis unfolding round_even_def Let_def using f by auto
  qed
qed

lemma ilog2_less: "0 < x \<Longrightarrow> x < 2 powi k \<Longrightarrow> ilog2 x < k"
proof (rule ccontr)
  assume x: "0 < x" "x < 2 powi k" and "\<not> ilog2 x < k"
  then have "(2::rat) powi k \<le> 2 powi ilog2 x" by (simp add: pow2_mono)
  with ilog2_bounds(1) [OF x(1)] x(2) show False by linarith
qed

lemma ilog2_ge: "0 < x \<Longrightarrow> 2 powi k \<le> x \<Longrightarrow> k \<le> ilog2 x"
proof (rule ccontr)
  assume x: "0 < x" "2 powi k \<le> x" and "\<not> k \<le> ilog2 x"
  then have "(2::rat) powi (ilog2 x + 1) \<le> 2 powi k" by (simp add: pow2_mono)
  with ilog2_bounds(2) [OF x(1)] x(2) show False by linarith
qed

lemma bitlen_le: 
  assumes "0 \<le> p" "m \<le> 2 ^ nat p"
  shows "bitlen m \<le> p + 1"
proof (cases "0 < m")
  case True
  from bitlen_bounds [OF True] have "2 ^ nat (bitlen m - 1) \<le> m" by simp
  with assms(2) have "(2::int) ^ nat (bitlen m - 1) \<le> 2 ^ nat p" by linarith
  then have "nat (bitlen m - 1) \<le> nat p" by simp
  with assms(1) show ?thesis by linarith
next
  case False
  then have "bitlen m = 0" by (simp add: bitlen_eq_zero_iff)
  with assms(1) show ?thesis by simp
qed

lemma round_to_bound:
  assumes x: "x \<noteq> 0" "\<bar>x\<bar> < 2 powi k" and p: "1 \<le> p" and elo: "elo \<le> k - p" and ehi: "k + 1 \<le> ehi"
  shows "\<exists>r. round_to p elo ehi x = Fin r \<and> \<bar>r - x\<bar> \<le> 2 powi (k - p) / 2
             \<and> (0 \<le> x \<longrightarrow> 0 \<le> r) \<and> (x \<le> 0 \<longrightarrow> r \<le> 0)"
proof -
  define e where "e = max elo (ilog2 \<bar>x\<bar> - (p - 1))"
  define m where "m = round_even (x / 2 powi e)"
  from x have ax: "0 < \<bar>x\<bar>" by simp
  have il: "ilog2 \<bar>x\<bar> < k" using ilog2_less [OF ax x(2)] .
  have ek: "e \<le> k - p" using il elo by (simp add: e_def)
  have eg: "ilog2 \<bar>x\<bar> + 1 - p \<le> e" by (simp add: e_def)
  have "\<bar>x\<bar> < 2 powi (ilog2 \<bar>x\<bar> + 1)" using ilog2_bounds(2) [OF ax] .
  also have "\<dots> \<le> 2 powi (e + p)" using eg by (intro pow2_mono) simp
  also have "\<dots> = 2 powi p * 2 powi e" by (simp add: pow2_add mult.commute)
  finally have "\<bar>x\<bar> / 2 powi e < 2 powi p" by (simp add: pos_divide_less_eq)
  then have y: "\<bar>x\<bar> / 2 powi e < of_int (2 ^ nat p)"
    using p by (simp add: power_int_def)
  have ya: "x / 2 powi e \<le> \<bar>x\<bar> / 2 powi e" "- (\<bar>x\<bar> / 2 powi e) \<le> x / 2 powi e"
  proof -
    show "x / 2 powi e \<le> \<bar>x\<bar> / 2 powi e" by (simp add: divide_right_mono)
    have "(- \<bar>x\<bar>) / 2 powi e \<le> x / 2 powi e" by (intro divide_right_mono) simp_all
    then show "- (\<bar>x\<bar> / 2 powi e) \<le> x / 2 powi e" by simp
  qed
  have y1: "x / 2 powi e \<le> of_int (2 ^ nat p)"
    using y ya by linarith
  have "- of_int (2 ^ nat p) \<le> x / 2 powi e"
    using y ya by linarith
  then have y2: "of_int (- (2 ^ nat p)) \<le> x / 2 powi e"
    by (simp only: of_int_minus)
  have "m \<le> 2 ^ nat p" "- (2 ^ nat p) \<le> m"
    unfolding m_def using round_even_le_int [OF y1] round_even_mono_int [OF y2] by simp_all
  then have "\<bar>m\<bar> \<le> 2 ^ nat p" by simp
  then have "bitlen \<bar>m\<bar> \<le> p + 1" using p by (intro bitlen_le) simp_all
  with ek ehi have nov: "\<not> ehi < e + bitlen \<bar>m\<bar>" by linarith
  have r: "round_to p elo ehi x = Fin (of_int m * 2 powi e)"
    using x(1) nov by (simp add: round_to_def Let_def e_def m_def)
  have "\<bar>of_int m * 2 powi e - x\<bar> = \<bar>of_int m - x / 2 powi e\<bar> * 2 powi e"
  proof -
    have "of_int m * 2 powi e - x = (of_int m - x / 2 powi e) * 2 powi e"
      by (simp add: algebra_simps)
    then show ?thesis by (simp add: abs_mult)
  qed
  also have "\<dots> \<le> 1 / 2 * 2 powi e"
    using round_even_error [of "x / 2 powi e"] unfolding m_def
    by (intro mult_right_mono) simp_all
  also have "\<dots> \<le> 1 / 2 * 2 powi (k - p)"
    using ek by (intro mult_left_mono pow2_mono) simp_all
  finally have err: "\<bar>of_int m * 2 powi e - x\<bar> \<le> 2 powi (k - p) / 2" by simp
  have pos: "0 \<le> x \<longrightarrow> 0 \<le> of_int m * (2::rat) powi e"
  proof
    assume "0 \<le> x"
    then have "of_int 0 \<le> x / 2 powi e" by simp
    then have "0 \<le> m" unfolding m_def by (rule round_even_mono_int)
    then show "0 \<le> of_int m * (2::rat) powi e" by simp
  qed
  have neg: "x \<le> 0 \<longrightarrow> of_int m * (2::rat) powi e \<le> 0"
  proof
    assume "x \<le> 0"
    then have "x / 2 powi e \<le> of_int 0" by (simp add: divide_le_0_iff)
    then have "m \<le> 0" unfolding m_def by (rule round_even_le_int)
    then show "of_int m * (2::rat) powi e \<le> 0" by (simp add: mult_le_0_iff)
  qed
  from r err pos neg show ?thesis by blast
qed

lemma round_to_0 [simp]: "round_to p elo ehi 0 = Fin 0"
  by (simp add: round_to_def)

text \<open>Relative error of a rounding in the normal range.\<close>

lemma round_to_rel:
  assumes x: "0 < x" and p: "1 \<le> p" and elo: "2 powi (elo + p - 1) \<le> x" and ehi: "x < 2 powi (ehi - 1)"
  shows "\<exists>r. round_to p elo ehi x = Fin r \<and> x * (1 - 2 powi (- p)) \<le> r \<and> r \<le> x * (1 + 2 powi (- p))"
proof -
  define k where "k = ilog2 x + 1"
  have ax: "\<bar>x\<bar> = x" using x by simp
  have 1: "\<bar>x\<bar> < 2 powi k" unfolding k_def ax using ilog2_bounds(2) [OF x] .
  have "elo + p - 1 \<le> ilog2 x" using ilog2_ge [OF x elo] .
  then have 2: "elo \<le> k - p" by (simp add: k_def)
  have "ilog2 x < ehi - 1" using ilog2_less [OF x ehi] .
  then have 3: "k + 1 \<le> ehi" by (simp add: k_def)
  from x have x0: "x \<noteq> 0" by simp
  from round_to_bound [OF x0 1 p 2 3] obtain r
    where r: "round_to p elo ehi x = Fin r" and err: "\<bar>r - x\<bar> \<le> 2 powi (k - p) / 2" by blast
  have "(2::rat) powi (k - p) / 2 = 2 powi ilog2 x * 2 powi (- p)"
  proof -
    have "k - p = ilog2 x + 1 + (- p)" by (simp add: k_def)
    then have "(2::rat) powi (k - p) = 2 powi ilog2 x * 2 * 2 powi (- p)"
      by (simp only: pow2_add) simp
    then show ?thesis by simp
  qed
  also have "\<dots> \<le> x * 2 powi (- p)"
    using ilog2_bounds(1) [OF x] by (intro mult_right_mono) simp_all
  finally have "\<bar>r - x\<bar> \<le> x * 2 powi (- p)" using err by linarith
  then have "x * (1 - 2 powi (- p)) \<le> r \<and> r \<le> x * (1 + 2 powi (- p))"
    by (simp add: abs_le_iff algebra_simps)
  with r show ?thesis by blast
qed

lemma u64_val: "u64 = 1 / 9007199254740992"
  by (simp add: u64_def)

lemma round64_rel:
  assumes "2 powi (- 1022) \<le> x" "x < 2 powi 1023"
  shows "\<exists>r. round64 x = Fin r \<and> x * (1 - u64) \<le> r \<and> r \<le> x * (1 + u64)"
proof -
  have "(0::rat) < 2 powi (- 1022)" by (rule pow2_pos)
  with assms(1) have x: "0 < x" by linarith
  have e1: "(- 1074::int) + 53 - 1 = - 1022" and e2: "(1024::int) - 1 = 1023" by simp_all
  have p: "(1::int) \<le> 53" by simp
  from assms have a1: "2 powi (- 1074 + 53 - 1) \<le> x" and a2: "x < 2 powi (1024 - 1)"
    by (simp_all only: e1 e2)
  show ?thesis
    unfolding round64_def u64_def by (rule round_to_rel [OF x p a1 a2])
qed

lemma valid_rat:
  "(1::rat) \<le> of_int i \<longleftrightarrow> 1 \<le> i" "(of_int i :: rat) \<le> 2147483647 \<longleftrightarrow> i \<le> 2147483647"
  using of_int_le_iff [of 1 i, where 'a = rat] of_int_le_iff [of i 2147483647, where 'a = rat]
  by simp_all

lemma spb_bounds:
  assumes "valid len n"
  shows "\<exists>s. samplesPerBucket len n = Fin s
           \<and> of_int len / of_int n * (1 - u64) \<le> s \<and> s \<le> of_int len / of_int n * (1 + u64)"
proof -
  let ?L = "of_int len / of_int n :: rat"
  from assms have l: "(1::rat) \<le> of_int len" "(of_int len :: rat) \<le> 2147483647"
    and n: "(1::rat) \<le> of_int n" "(of_int n :: rat) \<le> 2147483647"
    unfolding valid_def by (simp_all add: valid_rat)
  have "1 / 2147483647 \<le> 1 / (of_int n :: rat)" using n by (intro divide_left_mono) simp_all
  also have "\<dots> \<le> ?L" using l n by (intro divide_right_mono) simp_all
  finally have lo: "1 / 2147483647 \<le> ?L" .
  have "?L \<le> of_int len / 1" using l n by (intro divide_left_mono) simp_all
  with l have hi: "?L \<le> 2147483647" by simp
  define lo64 hi64 :: rat where "lo64 = 2 powi (- 1022)" and "hi64 = 2 powi 1023"
  have "lo64 \<le> 2 powi (- 31)" unfolding lo64_def by (intro pow2_mono) simp
  also have "\<dots> \<le> 1 / 2147483647" by simp
  finally have "lo64 \<le> ?L" using lo by linarith
  then have 1: "2 powi (- 1022) \<le> ?L" by (simp only: lo64_def)
  have "(2147483647::rat) < 2 powi 31" by simp
  also have "\<dots> \<le> hi64" unfolding hi64_def by (intro pow2_mono) simp
  finally have "?L < hi64" using hi by linarith
  then have 2: "?L < 2 powi 1023" by (simp only: hi64_def)
  from round64_rel [OF 1 2] show ?thesis by (simp add: samplesPerBucket_def)
qed

lemma wrap32_id: "in_int32 i \<Longrightarrow> wrap32 i = i"
  unfolding wrap32_def in_int32_def by (simp add: mod_pos_pos_trivial)

lemma wrap32_range: "in_int32 (wrap32 i)"
proof -
  have "0 \<le> (i + 2147483648) mod 4294967296" "(i + 2147483648) mod 4294967296 < 4294967296"
    by simp_all
  then show ?thesis unfolding wrap32_def in_int32_def by linarith
qed

lemma wrap32_inj:
  assumes "wrap32 i = wrap32 j" "0 \<le> i" "i < 4294967296" "0 \<le> j" "j < 4294967296"
  shows "i = j"
proof (rule ccontr)
  assume ne: "i \<noteq> j"
  have m: "(i + 2147483648) mod 4294967296 = (j + 2147483648) mod 4294967296"
    using assms(1) unfolding wrap32_def by linarith
  have "4294967296 dvd (i + 2147483648) - (j + 2147483648)"
    using m by (simp only: mod_eq_dvd_iff)
  then have d: "4294967296 dvd i - j" by simp
  from ne have "i - j \<noteq> 0" by simp
  from dvd_imp_le_int [OF this d] have "4294967296 \<le> \<bar>i - j\<bar>" by simp
  with assms(2-5) show False by linarith
qed

lemma wrap32_succ: "wrap32 (wrap32 i + 1) = wrap32 (i + 1)"
proof -
  have "wrap32 i + 1 + 2147483648 = (i + 2147483648) mod 4294967296 + 1"
    unfolding wrap32_def by linarith
  then have "(wrap32 i + 1 + 2147483648) mod 4294967296
      = ((i + 2147483648) mod 4294967296 + 1) mod 4294967296"
    by (simp only:)
  also have "\<dots> = (i + 2147483648 + 1) mod 4294967296"
    by (simp only: mod_add_left_eq)
  also have "i + 2147483648 + 1 = i + 1 + 2147483648" by linarith
  finally show ?thesis unfolding wrap32_def by (simp only:)
qed

lemma trunc_nonneg: "0 \<le> x \<Longrightarrow> trunc x = \<lfloor>x\<rfloor>"
  by (simp add: trunc_def)

text \<open>The product \<open>b * samplesPerBucket\<close>, for a bucket index \<open>0 \<le> b \<le> n\<close>.\<close>

lemma product_bounds:
  assumes v: "valid len n" and b: "0 \<le> b" "b \<le> n"
    and s: "samplesPerBucket len n = Fin s"
           "of_int len / of_int n * (1 - u64) \<le> s" "s \<le> of_int len / of_int n * (1 + u64)"
  shows "\<exists>t. fmul round64 (double_of_int b) (samplesPerBucket len n) = Fin t
           \<and> of_int b * s * (1 - u64) \<le> t \<and> t \<le> of_int b * s * (1 + u64)"
proof (cases "b = 0")
  case True
  then show ?thesis by (simp add: s double_of_int_def round64_def)
next
  case False
  let ?L = "of_int len / of_int n :: rat"
  from v have l: "(1::rat) \<le> of_int len" "(of_int len :: rat) \<le> 2147483647"
    and n: "(1::rat) \<le> of_int n" "(of_int n :: rat) \<le> 2147483647"
    unfolding valid_def by (simp_all add: valid_rat)
  from False b v have br: "(1::rat) \<le> of_int b" "(of_int b :: rat) \<le> 2147483647"
    unfolding valid_def by (simp_all add: valid_rat)
  have "1 / 2147483647 \<le> 1 / (of_int n :: rat)" using n by (intro divide_left_mono) simp_all
  also have "\<dots> \<le> ?L" using l n by (intro divide_right_mono) simp_all
  finally have Llo: "1 / 2147483647 \<le> ?L" .
  have "?L \<le> of_int len / 1" using l n by (intro divide_left_mono) simp_all
  with l have Lhi: "?L \<le> 2147483647" by simp
  have "1 / 2147483647 * (1 - u64) \<le> ?L * (1 - u64)"
    using Llo by (intro mult_right_mono) (simp_all add: u64_val)
  with s(2) have slo: "1 / 4294967296 \<le> s" by (simp add: u64_val)
  have "?L * (1 + u64) \<le> 2147483647 * (1 + u64)"
    using Lhi by (intro mult_right_mono) (simp_all add: u64_val)
  with s(3) have shi: "s \<le> 4294967296" by (simp add: u64_val)
  let ?x = "of_int b * s"
  have s0: "0 \<le> s" using slo by linarith
  have "1 * s \<le> ?x" using br s0 by (intro mult_right_mono) simp_all
  then have xlo: "1 / 4294967296 \<le> ?x" using slo by linarith
  have "?x \<le> 2147483647 * s" using br s0 by (intro mult_right_mono) simp_all
  then have xhi: "?x \<le> 2147483647 * 4294967296" using shi by linarith
  define lo64 hi64 :: rat where "lo64 = 2 powi (- 1022)" and "hi64 = 2 powi 1023"
  have "lo64 \<le> 2 powi (- 32)" unfolding lo64_def by (intro pow2_mono) simp
  also have "\<dots> \<le> 1 / 4294967296" by simp
  finally have "lo64 \<le> ?x" using xlo by linarith
  then have 1: "2 powi (- 1022) \<le> ?x" by (simp only: lo64_def)
  have "(2147483647 * 4294967296 :: rat) < 2 powi 63" by simp
  also have "\<dots> \<le> hi64" unfolding hi64_def by (intro pow2_mono) simp
  finally have "?x < hi64" using xhi by linarith
  then have 2: "?x < 2 powi 1023" by (simp only: hi64_def)
  from round64_rel [OF 1 2] show ?thesis by (simp add: s double_of_int_def)
qed

text \<open>
  The edge of a bucket index \<open>0 \<le> b \<le> n\<close> is the floor of the rounded product, which
  is within two roundings of \<open>b * len / n\<close>.
\<close>

lemma edge_floor:
  assumes v: "valid len n" and b: "0 \<le> b" "b \<le> n"
  shows "\<exists>s t. samplesPerBucket len n = Fin s
         \<and> of_int len / of_int n * (1 - u64) \<le> s \<and> s \<le> of_int len / of_int n * (1 + u64)
         \<and> fmul round64 (double_of_int b) (samplesPerBucket len n) = Fin t
         \<and> of_int b * s * (1 - u64) \<le> t \<and> t \<le> of_int b * s * (1 + u64)
         \<and> 0 \<le> t \<and> edge len n b = \<lfloor>t\<rfloor>"
proof -
  from spb_bounds [OF v] obtain s where s: "samplesPerBucket len n = Fin s"
    "of_int len / of_int n * (1 - u64) \<le> s" "s \<le> of_int len / of_int n * (1 + u64)" by blast
  from product_bounds [OF v b s] obtain t
    where t: "fmul round64 (double_of_int b) (samplesPerBucket len n) = Fin t"
      "of_int b * s * (1 - u64) \<le> t" "t \<le> of_int b * s * (1 + u64)" by blast
  from v have l: "(1::rat) \<le> of_int len" and n: "(1::rat) \<le> of_int n"
    unfolding valid_def by (simp_all add: valid_rat)
  have "0 \<le> of_int len / of_int n * (1 - u64)"
    using l n by (intro mult_nonneg_nonneg) (simp_all add: u64_val)
  with s(2) have s0: "0 \<le> s" by linarith
  have "0 \<le> of_int b * s * (1 - u64)"
    using b(1) s0 by (intro mult_nonneg_nonneg) (simp_all add: u64_val)
  with t(2) have t0: "0 \<le> t" by linarith
  have "edge len n b = \<lfloor>t\<rfloor>" using t0 by (simp add: edge_def t(1) trunc_nonneg)
  with s t t0 show ?thesis by blast
qed

lemma edge_facts:
  assumes v: "valid len n" and b: "0 \<le> b" "b \<le> n"
  shows "f2i pf (fmul round64 (double_of_int b) (samplesPerBucket len n)) = edge len n b
         \<and> 0 \<le> edge len n b \<and> edge len n b \<le> len
         \<and> (b < n \<longrightarrow> edge len n b < len) \<and> (b = 0 \<longrightarrow> edge len n b = 0)"
proof -
  define L :: rat where "L = of_int len / of_int n"
  from edge_floor [OF v b] obtain s t where s: "samplesPerBucket len n = Fin s"
    "of_int len / of_int n * (1 - u64) \<le> s" "s \<le> of_int len / of_int n * (1 + u64)"
    and t: "fmul round64 (double_of_int b) (samplesPerBucket len n) = Fin t"
      "of_int b * s * (1 - u64) \<le> t" "t \<le> of_int b * s * (1 + u64)"
    and t0: "0 \<le> t" and e: "edge len n b = \<lfloor>t\<rfloor>" by blast
  note sL = s(2,3) [folded L_def]
  from v have l: "(1::rat) \<le> of_int len" "(of_int len :: rat) \<le> 2147483647"
    and n: "(1::rat) \<le> of_int n" "(of_int n :: rat) \<le> 2147483647"
    unfolding valid_def by (simp_all add: valid_rat)
  have b0: "(0::rat) \<le> of_int b" using b by simp
  have L0: "0 < L" using l n by (simp add: L_def)
  define d :: rat where "d = (1 + u64) * (1 + u64) - 1"
  have d: "0 \<le> d" "d * 2147483647 < 1" by (simp_all add: d_def u64_val)
  define K :: rat where "K = of_int b * L"
  have "of_int b * s \<le> of_int b * (L * (1 + u64))"
    using sL(2) b0 by (rule mult_left_mono)
  then have "of_int b * s * (1 + u64) \<le> of_int b * (L * (1 + u64)) * (1 + u64)"
    by (rule mult_right_mono) (simp add: u64_val)
  also have "\<dots> = K + K * d" by (simp add: K_def d_def algebra_simps)
  finally have tK: "t \<le> K + K * d" using t(3) by linarith
  have nL: "of_int n * L = of_int len" using n by (simp add: L_def)
  have "K \<le> of_int n * L" unfolding K_def using b L0 by (intro mult_right_mono) simp_all
  then have Kl: "K \<le> of_int len" by (simp only: nL)
  have "K * d \<le> of_int len * d" using Kl d(1) by (rule mult_right_mono)
  also have "\<dots> \<le> 2147483647 * d" using l(2) d(1) by (rule mult_right_mono)
  finally have Kd: "K * d < 1" using d(2) by (simp add: mult.commute)
  have "t < of_int len + 1" using tK Kl Kd by linarith
  then have "t < of_int (len + 1)" by simp
  then have "\<lfloor>t\<rfloor> < len + 1" by (simp only: floor_less_iff)
  then have fl: "\<lfloor>t\<rfloor> \<le> len" by simp
  have f0: "0 \<le> \<lfloor>t\<rfloor>" using t0 by simp
  from v have "len \<le> 2147483647" by (simp add: valid_def)
  with fl f0 have in32: "in_int32 \<lfloor>t\<rfloor>" unfolding in_int32_def by linarith
  have conv: "f2i pf (Fin t) = \<lfloor>t\<rfloor>" using in32 t0 by (simp add: f2i_def trunc_nonneg)
  have lt: "\<lfloor>t\<rfloor> < len" if "b < n"
  proof -
    from that have "of_int b \<le> (of_int n :: rat) - 1"
      using of_int_le_iff [of b "n - 1", where 'a = rat] by simp
    then have "K \<le> (of_int n - 1) * L" unfolding K_def using L0 by (intro mult_right_mono) simp_all
    also have "\<dots> = of_int len - L" using nL by (simp add: algebra_simps)
    finally have K1: "K \<le> of_int len - L" .
    have "of_int len * d = L * (of_int n * d)" using nL by (simp add: algebra_simps)
    also have "\<dots> < L * 1"
    proof (rule mult_strict_left_mono [OF _ L0])
      have "of_int n * d \<le> 2147483647 * d" using n(2) d(1) by (rule mult_right_mono)
      with d(2) show "of_int n * d < 1" by (simp add: mult.commute)
    qed
    finally have "of_int len * d < L" by simp
    moreover have "K * d \<le> of_int len * d" using Kl d(1) by (rule mult_right_mono)
    ultimately have "t < of_int len" using tK K1 by linarith
    then show ?thesis by (simp add: floor_less_iff)
  qed
  have z: "\<lfloor>t\<rfloor> = 0" if "b = 0"
    using that t(1) by (simp add: double_of_int_def s(1) round64_def)
  have 1: "f2i pf (fmul round64 (double_of_int b) (samplesPerBucket len n)) = edge len n b"
    by (simp only: t(1) conv e)
  from fl f0 lt z have "0 \<le> edge len n b" "edge len n b \<le> len"
    "b < n \<longrightarrow> edge len n b < len" "b = 0 \<longrightarrow> edge len n b = 0"
    unfolding e by blast+
  with 1 show ?thesis by blast
qed

lemma edge_mono:
  assumes v: "valid len n" and b: "0 \<le> b" "b < n"
  shows "edge len n b \<le> edge len n (b + 1)"
proof -
  from b have b1: "0 \<le> b" "b \<le> n" and b2: "0 \<le> b + 1" "b + 1 \<le> n" by simp_all
  from edge_floor [OF v b1] obtain s t where s: "samplesPerBucket len n = Fin s"
    "of_int len / of_int n * (1 - u64) \<le> s"
    and t: "t \<le> of_int b * s * (1 + u64)" "edge len n b = \<lfloor>t\<rfloor>" by blast
  from edge_floor [OF v b2] s(1) obtain t'
    where t': "of_int (b + 1) * s * (1 - u64) \<le> t'" "edge len n (b + 1) = \<lfloor>t'\<rfloor>" by auto
  from v have l: "(1::rat) \<le> of_int len" and n: "(1::rat) \<le> of_int n" "(of_int n :: rat) \<le> 2147483647"
    unfolding valid_def by (simp_all add: valid_rat)
  have s0: "0 \<le> s"
  proof -
    have "0 \<le> of_int len / of_int n * (1 - u64)"
      using l n by (intro mult_nonneg_nonneg) (simp_all add: u64_val)
    with s(2) show ?thesis by linarith
  qed
  have bn: "(0::rat) \<le> of_int b" "(of_int b :: rat) \<le> 2147483647"
    using b v by (simp_all add: valid_def)
  then have "of_int b * (1 + u64) \<le> (of_int b + 1) * (1 - u64)"
    by (simp add: u64_val algebra_simps)
  then have "s * (of_int b * (1 + u64)) \<le> s * ((of_int b + 1) * (1 - u64))"
    using s0 by (rule mult_left_mono)
  then have "of_int b * s * (1 + u64) \<le> of_int (b + 1) * s * (1 - u64)"
    by (simp add: mult_ac)
  with t(1) t'(1) have "t \<le> t'" by linarith
  then show ?thesis unfolding t(2) t'(2) by (rule floor_mono)
qed

lemma bucket_range_eq:
  assumes v: "valid len n" and b: "0 \<le> b" "b < n"
  shows "bucket_range pf len (samplesPerBucket len n) b
         = (edge len n b, max (edge len n (b + 1)) (edge len n b + 1))"
proof -
  from b have b1: "0 \<le> b" "b \<le> n" and b2: "0 \<le> b + 1" "b + 1 \<le> n" by simp_all
  note e1 = edge_facts [OF v b1, of pf] and e2 = edge_facts [OF v b2, of pf]
  from v b have a: "int_add b 1 = b + 1"
    by (simp add: int_add_def wrap32_id in_int32_def valid_def)
  from e1 b v have "edge len n b < len" "len \<le> 2147483647" "0 \<le> edge len n b"
    by (simp_all add: valid_def)
  then have a': "int_add (edge len n b) 1 = edge len n b + 1"
    and lt: "edge len n b + 1 \<le> len"
    by (simp_all add: int_add_def wrap32_id in_int32_def)
  from e2 have le: "edge len n (b + 1) \<le> len" by simp
  show ?thesis
    using e1 e2 a a' lt le by (simp add: bucket_range_def max_def Let_def)
qed

lemma scan_eq:
  "scan samples i e (mn, mx, rs) =
     (foldl lower mn (map (\<lambda>j. valof32 (samples j)) [i..e - 1]),
      foldl upper mx (map (\<lambda>j. valof32 (samples j)) [i..e - 1]),
      rs @ [i..e - 1])"
proof (induction samples i e "(mn, mx, rs)" arbitrary: mn mx rs rule: scan.induct)
  case (1 samples i e mn mx rs)
  show ?case
  proof (cases "i < e")
    case True
    then have u: "[i..e - 1] = i # [i + 1..e - 1]"
      by (simp add: upto_rec1)
    show ?thesis
      using True 1 [OF True refl refl refl]
      by (subst scan.simps) (simp add: u Let_def lower_def upper_def)
  next
    case False
    then show ?thesis by (subst scan.simps) simp
  qed
qed

lemma after_Nil [simp]: "after st [] [] = st"
  by (simp add: after_def replay_def)

lemma after_after [simp]: "after (after st rs ws) rs' ws' = after st (rs @ rs') (ws @ ws')"
  by (simp add: after_def replay_def)

lemma store_after: "store i v st = after st [] [(i, v)]"
  by (simp add: store_def after_def replay_def)

lemma reads_after: "st\<lparr>reads := reads st @ rs\<rparr> = after st rs []"
  by (simp add: after_def replay_def)

text \<open>The accesses of a bucket: the indices of its range, then its two entries.\<close>

lemma bucket_effect_eq:
  "bucket_effect pf samples len spb b =
    (case bucket_range pf len spb b of
       (s, en) \<Rightarrow>
         ([s..en - 1],
          [(int_mul b 2, fst (scaled pf (spec_extremes samples s en))),
           (int_add (int_mul b 2) 1, snd (scaled pf (spec_extremes samples s en)))]))"
  unfolding bucket_effect_def bucket_body_def
  by (simp add: scan_eq Let_def store_def fresh_def spec_extremes_def scaled_def split: prod.splits)

lemma body_frame:
  "bucket_body pf samples len spb b st =
     (case bucket_effect pf samples len spb b of (rs, ws) \<Rightarrow> after st rs ws)"
  unfolding bucket_effect_def bucket_body_def
  by (simp add: scan_eq Let_def store_def fresh_def after_def replay_def split: prod.splits)

lemma reads_fresh_after [simp]: "reads (after (fresh buf) rs ws) = rs"
  and writes_fresh_after [simp]: "writes (after (fresh buf) rs ws) = ws"
  and out_after [simp]: "out (after st rs ws) = replay (out st) ws"
  and reads_after' [simp]: "reads (after st rs ws) = reads st @ rs"
  and writes_after' [simp]: "writes (after st rs ws) = writes st @ ws"
  by (simp_all add: after_def fresh_def)

lemma fresh_logs [simp]: "reads (fresh buf) = []" "writes (fresh buf) = []" "out (fresh buf) = buf"
  by (simp_all add: fresh_def)

lemma loop_effect_rec_aux:
  assumes IH: "\<And>st. bucket_loop pf samples len n spb (b + 1) st =
      (case loop_effect pf samples len n spb (b + 1) of (rs, ws) \<Rightarrow> after st rs ws)"
  shows "bucket_loop pf samples len n spb b st =
     (if b < n then
        (case bucket_effect pf samples len spb b of
           (rs, ws) \<Rightarrow>
             (case loop_effect pf samples len n spb (b + 1) of
                (rs', ws') \<Rightarrow> after st (rs @ rs') (ws @ ws')))
      else st)"
  by (subst bucket_loop.simps) (auto simp: body_frame IH split: prod.splits)

lemma loop_frame:
  "bucket_loop pf samples len n spb b st =
     (case loop_effect pf samples len n spb b of (rs, ws) \<Rightarrow> after st rs ws)"
proof (induction "nat (n - b)" arbitrary: b st)
  case 0
  then have "\<not> b < n" by simp
  then show ?case
    by (simp add: loop_effect_def bucket_loop.simps [of pf samples len n spb b])
next
  case (Suc k)
  then have lt: "b < n" and k: "k = nat (n - (b + 1))" by simp_all
  note IH = Suc(1) [OF k]
  show ?case
    unfolding loop_effect_def loop_effect_rec_aux [OF IH, of st]
      loop_effect_rec_aux [OF IH, of "fresh (\<lambda>i. 0)"]
    using lt by (simp split: prod.splits)
qed

lemma loop_effect_rec:
  "loop_effect pf samples len n spb b =
     (if b < n then
        (case bucket_effect pf samples len spb b of
           (rs, ws) \<Rightarrow>
             (case loop_effect pf samples len n spb (b + 1) of
                (rs', ws') \<Rightarrow> (rs @ rs', ws @ ws')))
      else ([], []))"
  unfolding loop_effect_def [of pf samples len n spb b]
    loop_effect_rec_aux [OF loop_frame, of pf samples len n spb b "fresh (\<lambda>i. 0)"]
  by (simp split: prod.splits)

text \<open>
  The loop runs every bucket: its reads and its writes are those of the buckets
  \<open>b0, \<dots>, n - 1\<close>, in this order.
\<close>

lemma loop_effect_concat:
  "loop_effect pf samples len n spb b0 =
     (concat (map (\<lambda>b. fst (bucket_effect pf samples len spb b)) [b0..n - 1]),
      concat (map (entries pf samples len spb) [b0..n - 1]))"
proof (induction "nat (n - b0)" arbitrary: b0)
  case 0
  then have "\<not> b0 < n" by simp
  then show ?case by (simp add: loop_effect_rec [of pf samples len n spb b0])
next
  case (Suc j)
  then have lt: "b0 < n" and j: "j = nat (n - (b0 + 1))" by simp_all
  from lt have u: "[b0..n - 1] = b0 # [b0 + 1..n - 1]" by (simp add: upto_rec1)
  show ?case
    using lt Suc(1) [OF j]
    by (simp add: loop_effect_rec [of pf samples len n spb b0] u entries_def split: prod.splits)
qed

lemma compute_peaks_valid:
  assumes "0 < sint len" "0 < sint buckets"
  shows "compute_peaks pf (Some samples) len buckets (Some buf) =
     (case loop_effect pf samples (sint len) (sint buckets)
             (samplesPerBucket (sint len) (sint buckets)) 0 of
        (rs, ws) \<Rightarrow> Some (after (fresh buf) rs ws))"
  using assms by (simp add: compute_peaks_def loop_frame split: prod.splits)

lemma valid_sint:
  assumes "0 < sint (len :: 32 word)" "0 < sint (buckets :: 32 word)"
  shows "valid (sint len) (sint buckets)"
proof -
  have "sint len < 2 ^ 31" "sint buckets < 2 ^ 31"
    using sint_lt [of len] sint_lt [of buckets] by simp_all
  with assms show ?thesis by (simp add: valid_def)
qed

text \<open>The indices of the two stores of a bucket.\<close>

lemma index_wrap:
  "int_mul b 2 = wrap32 (2 * b)" "int_add (wrap32 (2 * b)) 1 = wrap32 (2 * b + 1)"
  unfolding int_add_def by (simp add: int_mul_def mult.commute, rule wrap32_succ)

lemma index_id:
  assumes "0 \<le> b" "b < 1073741824"
  shows "int_mul b 2 = 2 * b" "int_add (int_mul b 2) 1 = 2 * b + 1"
proof -
  from assms have "in_int32 (2 * b)" "in_int32 (2 * b + 1)" by (simp_all add: in_int32_def)
  then show "int_mul b 2 = 2 * b" "int_add (int_mul b 2) 1 = 2 * b + 1"
    unfolding index_wrap by (simp_all only: wrap32_id)
qed

lemma entries_eq:
  "entries pf samples len spb b =
     [(wrap32 (2 * b), fst (scaled pf (spec_extremes samples (fst (bucket_range pf len spb b))
                                          (snd (bucket_range pf len spb b))))),
      (wrap32 (2 * b + 1), snd (scaled pf (spec_extremes samples (fst (bucket_range pf len spb b))
                                          (snd (bucket_range pf len spb b)))))]"
  by (simp add: entries_def bucket_effect_eq index_wrap split: prod.splits)

lemma bucket_reads:
  "fst (bucket_effect pf samples len spb b)
     = [fst (bucket_range pf len spb b)..snd (bucket_range pf len spb b) - 1]"
  by (simp add: bucket_effect_eq split: prod.splits)

lemma entries_indices:
  assumes "\<And>b. map fst (E b) = [f (2 * b), f (2 * b + 1)]" "b0 \<le> k"
  shows "map fst (concat (map E [b0..k - 1])) = map f [2 * b0..2 * k - 1]"
  using assms(2)
proof (induction "nat (k - b0)" arbitrary: k)
  case 0
  then have "k = b0" by simp
  then show ?case by simp
next
  case (Suc j)
  then have lt: "b0 < k" and j: "j = nat ((k - 1) - b0)" by simp_all
  from lt have le: "b0 \<le> k - 1" by simp
  note IH = Suc(1) [OF j le]
  from lt have u: "[b0..k - 1] = [b0..k - 1 - 1] @ [k - 1]" by (simp add: upto_rec2)
  have "[2 * b0..2 * k - 1] = [2 * b0..2 * k - 1 - 1] @ [2 * k - 1]"
    using lt by (intro upto_rec2) simp
  also have "[2 * b0..2 * k - 1 - 1] = [2 * b0..2 * k - 1 - 1 - 1] @ [2 * k - 1 - 1]"
    using lt by (intro upto_rec2) simp
  finally have u2: "[2 * b0..2 * k - 1] = [2 * b0..2 * (k - 1) - 1] @ [2 * (k - 1), 2 * (k - 1) + 1]"
    by (simp add: algebra_simps)
  show ?case
    unfolding u u2 using IH assms(1) [of "k - 1"] by simp
qed

lemma entries_length:
  assumes "\<And>b. length (E b) = 2" "b0 \<le> k"
  shows "length (concat (map E [b0..k - 1])) = nat (2 * (k - b0))"
  using assms(2)
proof (induction "nat (k - b0)" arbitrary: k)
  case 0
  then have "k = b0" by simp
  then show ?case by simp
next
  case (Suc j)
  then have lt: "b0 < k" and j: "j = nat ((k - 1) - b0)" by simp_all
  from lt have le: "b0 \<le> k - 1" by simp
  note IH = Suc(1) [OF j le]
  from lt have u: "[b0..k - 1] = [b0..k - 1 - 1] @ [k - 1]" by (simp add: upto_rec2)
  show ?case
    unfolding u using IH assms(1) [of "k - 1"] lt by simp
qed

lemma distinct_wrap:
  assumes "k \<le> 4294967296"
  shows "distinct (map wrap32 [0..k - 1])"
proof -
  have "inj_on wrap32 (set [0..k - 1])"
  proof (rule inj_onI)
    fix i j assume i: "i \<in> set [0..k - 1]" and j: "j \<in> set [0..k - 1]" and e: "wrap32 i = wrap32 j"
    from i j have "0 \<le> i" "i \<le> k - 1" "0 \<le> j" "j \<le> k - 1" by simp_all
    with assms have "0 \<le> i" "i < 4294967296" "0 \<le> j" "j < 4294967296" by linarith+
    with e show "i = j" by (rule wrap32_inj)
  qed
  then show ?thesis by (simp add: distinct_map)
qed

lemma map_wrap_id:
  assumes "k \<le> 2147483648"
  shows "map wrap32 [0..k - 1] = [0..k - 1]"
proof -
  have "wrap32 i = i" if "i \<in> set [0..k - 1]" for i
  proof -
    from that have "0 \<le> i" "i \<le> k - 1" by simp_all
    with assms have "in_int32 i" unfolding in_int32_def by linarith
    then show ?thesis by (rule wrap32_id)
  qed
  then have "map wrap32 [0..k - 1] = map (\<lambda>i. i) [0..k - 1]"
    by (intro map_cong refl)
  then show ?thesis by simp
qed

lemma replay_append: "replay buf (xs @ ys) = replay (replay buf xs) ys"
  by (simp add: replay_def)

lemma replay_other: "i \<notin> fst ` set ws \<Longrightarrow> replay buf ws i = buf i"
  by (induction ws rule: rev_induct) (auto simp: replay_def)

lemma replay_written:
  "distinct (map fst ws) \<Longrightarrow> (i, v) \<in> set ws \<Longrightarrow> replay buf ws i = int16_of_int v"
proof (induction ws rule: rev_induct)
  case Nil
  then show ?case by simp
next
  case (snoc x xs)
  obtain j w where x: "x = (j, w)" by (cases x)
  show ?case
  proof (cases "i = j")
    case True
    with snoc.prems x have "v = w" by (auto simp: image_iff)
    with True x show ?thesis by (simp add: replay_def)
  next
    case False
    with snoc x show ?thesis by (auto simp: replay_def)
  qed
qed

lemma replay_indep: "i \<in> fst ` set ws \<Longrightarrow> replay f ws i = replay g ws i"
proof (induction ws rule: rev_induct)
  case Nil
  then show ?case by simp
next
  case (snoc x xs)
  obtain j w where x: "x = (j, w)" by (cases x)
  show ?case
  proof (cases "i = j")
    case True
    with x show ?thesis by (simp add: replay_def)
  next
    case False
    with snoc.prems x have "i \<in> fst ` set xs" by auto
    from snoc.IH [OF this] False x show ?thesis by (simp add: replay_def)
  qed
qed

lemma replay_idem: "replay (replay buf ws) ws = replay buf ws"
proof
  fix i
  show "replay (replay buf ws) ws i = replay buf ws i"
  proof (cases "i \<in> fst ` set ws")
    case True
    then show ?thesis by (rule replay_indep)
  next
    case False
    then show ?thesis using replay_other [of i ws "replay buf ws"] by simp
  qed
qed

lemma sint_int16: "- 32768 \<le> v \<Longrightarrow> v \<le> 32767 \<Longrightarrow> sint (int16_of_int v) = v"
  unfolding int16_of_int_def by (simp add: sint_sbintrunc' signed_take_bit_int_eq_self)

lemma clamp16_range: "- 32768 \<le> clamp16 x \<and> clamp16 x \<le> 32767"
  by (simp add: clamp16_def)

lemma scaled_range:
  "- 32768 \<le> fst (scaled pf mm) \<and> fst (scaled pf mm) \<le> 32767
   \<and> - 32768 \<le> snd (scaled pf mm) \<and> snd (scaled pf mm) \<le> 32767"
  unfolding scaled_def using clamp16_range by simp

lemma entries_values:
  assumes "(i, v) \<in> set (entries pf samples len spb b)"
  shows "- 32768 \<le> v \<and> v \<le> 32767"
proof -
  let ?mm = "spec_extremes samples (fst (bucket_range pf len spb b)) (snd (bucket_range pf len spb b))"
  from assms have "v = fst (scaled pf ?mm) \<or> v = snd (scaled pf ?mm)"
    by (auto simp: entries_eq)
  with scaled_range [of pf ?mm] show ?thesis by auto
qed

text \<open>The stores never reach an index from \<open>2^31\<close> on.\<close>

lemma unwritten:
  assumes "map fst ws = map wrap32 js" "2147483648 \<le> i"
  shows "replay buf ws i = buf i"
proof -
  have "i \<notin> set (map fst ws)"
  proof
    assume "i \<in> set (map fst ws)"
    then have "i \<in> wrap32 ` set js" by (simp only: assms(1) set_map)
    then obtain j where "i = wrap32 j" by blast
    with wrap32_range [of j] assms(2) show False by (simp add: in_int32_def)
  qed
  then have "i \<notin> fst ` set ws" by simp
  then show ?thesis by (rule replay_other)
qed

text \<open>
  The structure of a valid call: every bucket is run, in order; bucket \<open>b\<close> reads the
  indices of its range and stores its two values at the indices \<open>2 * b\<close> and
  \<open>2 * b + 1\<close> taken as \<^verbatim>\<open>int\<close>s.
\<close>

lemma run_structure:
  assumes p: "0 < sint len" "0 < sint buckets"
  shows "\<exists>st. compute_peaks pf (Some samples) len buckets (Some buf) = Some st
    \<and> reads st = concat (map (\<lambda>b. fst (bucket_effect pf samples (sint len)
                                         (samplesPerBucket (sint len) (sint buckets)) b))
                          [0..sint buckets - 1])
    \<and> writes st = concat (map (entries pf samples (sint len) (samplesPerBucket (sint len) (sint buckets)))
                           [0..sint buckets - 1])
    \<and> map fst (writes st) = map wrap32 [0..2 * sint buckets - 1]
    \<and> distinct (map fst (writes st))
    \<and> length (writes st) = nat (2 * sint buckets)
    \<and> out st = replay buf (writes st)"
proof -
  let ?n = "sint buckets" and ?spb = "samplesPerBucket (sint len) (sint buckets)"
  let ?E = "entries pf samples (sint len) ?spb"
  define rs where "rs = concat (map (\<lambda>b. fst (bucket_effect pf samples (sint len) ?spb b)) [0..?n - 1])"
  define ws where "ws = concat (map ?E [0..?n - 1])"
  define st where "st = after (fresh buf) rs ws"
  have run: "compute_peaks pf (Some samples) len buckets (Some buf) = Some st"
    using p by (simp add: compute_peaks_valid loop_effect_concat st_def rs_def ws_def)
  have idx: "map fst ws = map wrap32 [0..2 * ?n - 1]"
    unfolding ws_def using entries_indices [of ?E wrap32 0 ?n] p(2) by (simp add: entries_eq)
  from valid_sint [OF p] have "2 * ?n \<le> 4294967296" by (simp add: valid_def)
  from distinct_wrap [OF this] have d: "distinct (map fst ws)" by (simp only: idx)
  have l: "length ws = nat (2 * ?n)"
    unfolding ws_def using entries_length [of ?E 0 ?n] p(2) by (simp add: entries_eq)
  show ?thesis
    using run idx d l by (intro exI [of _ st]) (simp add: st_def rs_def ws_def)
qed

lemma run_reads:
  assumes p: "0 < sint len" "0 < sint buckets"
    and run: "compute_peaks pf (Some samples) len buckets (Some buf) = Some st"
  shows "\<forall>i \<in> set (reads st). 0 \<le> i \<and> i < sint len"
proof
  fix i assume i: "i \<in> set (reads st)"
  let ?l = "sint len" and ?n = "sint buckets"
  note v = valid_sint [OF p]
  from run_structure [OF p, of pf samples buf] obtain st'
    where "compute_peaks pf (Some samples) len buckets (Some buf) = Some st'"
      "reads st' = concat (map (\<lambda>b. fst (bucket_effect pf samples ?l (samplesPerBucket ?l ?n) b)) [0..?n - 1])"
    by blast
  with run
  have "reads st = concat (map (\<lambda>b. fst (bucket_effect pf samples ?l (samplesPerBucket ?l ?n) b)) [0..?n - 1])"
    by simp
  with i obtain b where b: "0 \<le> b" "b < ?n"
    and ib: "i \<in> set (fst (bucket_effect pf samples ?l (samplesPerBucket ?l ?n) b))" by auto
  from b have b1: "0 \<le> b" "b \<le> ?n" and b2: "0 \<le> b + 1" "b + 1 \<le> ?n" by simp_all
  from ib have "edge ?l ?n b \<le> i" "i < max (edge ?l ?n (b + 1)) (edge ?l ?n b + 1)"
    by (simp_all add: bucket_reads bucket_range_eq [OF v b])
  with edge_facts [OF v b1, of pf] edge_facts [OF v b2, of pf] b
  show "0 \<le> i \<and> i < ?l" by auto
qed

text \<open>What a valid call leaves in the two entries of a bucket.\<close>

lemma stored_bucket:
  assumes p: "0 < sint len" "0 < sint buckets"
    and run: "compute_peaks pf (Some samples) len buckets (Some buf) = Some st"
    and b: "0 \<le> b" "b < sint buckets"
    and r: "bucket_range pf (sint len) (samplesPerBucket (sint len) (sint buckets)) b = (s, en)"
  shows "out st (int_mul b 2) = int16_of_int (fst (scaled pf (spec_extremes samples s en)))
    \<and> out st (int_add (int_mul b 2) 1) = int16_of_int (snd (scaled pf (spec_extremes samples s en)))
    \<and> (int_mul b 2, fst (scaled pf (spec_extremes samples s en))) \<in> set (writes st)
    \<and> (int_add (int_mul b 2) 1, snd (scaled pf (spec_extremes samples s en))) \<in> set (writes st)"
proof -
  let ?spb = "samplesPerBucket (sint len) (sint buckets)"
  let ?E = "entries pf samples (sint len) ?spb"
  from run_structure [OF p, of pf samples buf] obtain st'
    where "compute_peaks pf (Some samples) len buckets (Some buf) = Some st'"
      "writes st' = concat (map ?E [0..sint buckets - 1])"
      "distinct (map fst (writes st'))" "out st' = replay buf (writes st')" by blast
  with run have k: "writes st = concat (map ?E [0..sint buckets - 1])"
    "distinct (map fst (writes st))" "out st = replay buf (writes st)" by simp_all
  from b have "b \<in> set [0..sint buckets - 1]" by simp
  then have sub: "set (?E b) \<subseteq> set (writes st)" unfolding k(1) by auto
  have E: "?E b = [(int_mul b 2, fst (scaled pf (spec_extremes samples s en))),
                   (int_add (int_mul b 2) 1, snd (scaled pf (spec_extremes samples s en)))]"
    by (simp add: entries_eq r index_wrap)
  from sub have in0: "(int_mul b 2, fst (scaled pf (spec_extremes samples s en))) \<in> set (writes st)"
    and in1: "(int_add (int_mul b 2) 1, snd (scaled pf (spec_extremes samples s en))) \<in> set (writes st)"
    unfolding E by simp_all
  from replay_written [OF k(2) in0] replay_written [OF k(2) in1] in0 in1
  show ?thesis unfolding k(3) by simp
qed

lemma fle_trans: "fle x y \<Longrightarrow> fle y z \<Longrightarrow> fle x z"
  by (cases x; cases y; cases z) auto

lemma fle_refl: "x \<noteq> NaN \<Longrightarrow> fle x x"
  by (cases x) auto

lemma lower_le: "m \<noteq> NaN \<Longrightarrow> fle (lower m v) m"
  by (cases m; cases v) (auto simp: lower_def)

lemma lower_le_new: "m \<noteq> NaN \<Longrightarrow> v \<noteq> NaN \<Longrightarrow> fle (lower m v) v"
  by (cases m; cases v) (auto simp: lower_def)

lemma upper_ge: "m \<noteq> NaN \<Longrightarrow> fle m (upper m v)"
  by (cases m; cases v) (auto simp: upper_def)

lemma upper_ge_new: "m \<noteq> NaN \<Longrightarrow> v \<noteq> NaN \<Longrightarrow> fle v (upper m v)"
  by (cases m; cases v) (auto simp: upper_def)

lemma fle_not_NaN: "fle x y \<Longrightarrow> x \<noteq> NaN \<and> y \<noteq> NaN"
  by (cases x; cases y) auto

lemma fold_lower_le: "m \<noteq> NaN \<Longrightarrow> fle (foldl lower m vs) m"
proof (induction vs arbitrary: m)
  case Nil
  then show ?case by (simp add: fle_refl)
next
  case (Cons v vs)
  from lower_le [OF Cons.prems, of v] have 1: "fle (lower m v) m" .
  then have "lower m v \<noteq> NaN" by (simp add: fle_not_NaN)
  from Cons.IH [OF this] 1 show ?case by (auto intro: fle_trans)
qed

lemma fold_lower_le_elem:
  "m \<noteq> NaN \<Longrightarrow> v \<in> set vs \<Longrightarrow> v \<noteq> NaN \<Longrightarrow> fle (foldl lower m vs) v"
proof (induction vs arbitrary: m)
  case Nil
  then show ?case by simp
next
  case (Cons w vs)
  from lower_le [OF Cons.prems(1), of w] have n: "lower m w \<noteq> NaN" by (simp add: fle_not_NaN)
  show ?case
  proof (cases "v = w")
    case True
    with lower_le_new [OF Cons.prems(1), of w] Cons.prems(3) have "fle (lower m w) v" by simp
    with fold_lower_le [OF n, of vs] show ?thesis by (auto intro: fle_trans)
  next
    case False
    with Cons.prems(2) have "v \<in> set vs" by simp
    from Cons.IH [OF n this Cons.prems(3)] show ?thesis by simp
  qed
qed

lemma fold_upper_ge: "m \<noteq> NaN \<Longrightarrow> fle m (foldl upper m vs)"
proof (induction vs arbitrary: m)
  case Nil
  then show ?case by (simp add: fle_refl)
next
  case (Cons v vs)
  from upper_ge [OF Cons.prems, of v] have 1: "fle m (upper m v)" .
  then have "upper m v \<noteq> NaN" by (simp add: fle_not_NaN)
  from Cons.IH [OF this] 1 show ?case by (auto intro: fle_trans)
qed

lemma fold_upper_ge_elem:
  "m \<noteq> NaN \<Longrightarrow> v \<in> set vs \<Longrightarrow> v \<noteq> NaN \<Longrightarrow> fle v (foldl upper m vs)"
proof (induction vs arbitrary: m)
  case Nil
  then show ?case by simp
next
  case (Cons w vs)
  from upper_ge [OF Cons.prems(1), of w] have n: "upper m w \<noteq> NaN" by (simp add: fle_not_NaN)
  show ?case
  proof (cases "v = w")
    case True
    with upper_ge_new [OF Cons.prems(1), of w] Cons.prems(3) have "fle v (upper m w)" by simp
    with fold_upper_ge [OF n, of vs] show ?thesis by (auto intro: fle_trans)
  next
    case False
    with Cons.prems(2) have "v \<in> set vs" by simp
    from Cons.IH [OF n this Cons.prems(3)] show ?thesis by simp
  qed
qed

lemma flt_NaN_right [simp]: "flt x NaN = False"
  by (cases x) auto

lemma fold_nan:
  "\<forall>v \<in> set vs. v = NaN \<Longrightarrow> foldl lower m vs = m \<and> foldl upper m' vs = m'"
  by (induction vs arbitrary: m m') (auto simp: lower_def upper_def)

lemma fold_filter_nan:
  "foldl lower m (filter (\<lambda>v. v \<noteq> NaN) vs) = foldl lower m vs"
  "foldl upper m' (filter (\<lambda>v. v \<noteq> NaN) vs) = foldl upper m' vs"
  by (induction vs arbitrary: m m') (auto simp: lower_def upper_def)

lemma entries_written:
  assumes p: "0 < sint len" "0 < sint buckets"
    and run: "compute_peaks pf (Some samples) len buckets (Some buf) = Some st"
    and b: "0 \<le> b" "b < sint buckets"
  shows "set (entries pf samples (sint len) (samplesPerBucket (sint len) (sint buckets)) b)
           \<subseteq> set (writes st)"
proof -
  let ?E = "entries pf samples (sint len) (samplesPerBucket (sint len) (sint buckets))"
  from run_structure [OF p, of pf samples buf] obtain st'
    where "compute_peaks pf (Some samples) len buckets (Some buf) = Some st'"
      "writes st' = concat (map ?E [0..sint buckets - 1])" by blast
  with run have k: "writes st = concat (map ?E [0..sint buckets - 1])" by simp
  from b have "b \<in> set [0..sint buckets - 1]" by simp
  then show ?thesis unfolding k by auto
qed

text \<open>Runs and values evaluated on concrete inputs.\<close>

lemma val_half: "valof32 0x3F000000 = Fin (1 / 2)"
  by code_simp

lemma val_huge: "valof32 0x501502F9 = Fin 10000000000"
  by code_simp

lemma val_nan: "valof32 0x7FC00000 = NaN"
  by code_simp

lemma run_half:
  "loop_effect pf (buffer [0x3F000000] rest) 1 1 (samplesPerBucket 1 1) 0
     = ([0], [(0, 16384), (1, 16383)])"
  by code_simp

lemma run_huge:
  "loop_effect indefinite (buffer [0x501502F9] rest) 1 1 (samplesPerBucket 1 1) 0
     = ([0], [(0, 32767), (1, - 32768)])"
  by code_simp

lemma run_nan:
  "loop_effect pf (buffer [0x7FC00000] rest) 1 1 (samplesPerBucket 1 1) 0
     = ([0], [(0, 32767), (1, - 32767)])"
  by code_simp

lemma run_half_zero:
  "loop_effect pf (buffer [0x3F000000, 0x00000000] rest) 2 2 (samplesPerBucket 2 2) 0
     = ([0, 1], [(0, 16384), (1, 16383), (2, 0), (3, 0)])"
  by code_simp

lemma run_half_one:
  "loop_effect pf (buffer [0x3F000000, 0x3F800000] rest) 2 2 (samplesPerBucket 2 2) 0
     = ([0, 1], [(0, 16384), (1, 16383), (2, 32767), (3, 32767)])"
  by code_simp

lemma range_1_1: "bucket_range pf 1 (samplesPerBucket 1 1) 0 = (0, 1)"
  by code_simp

lemma range_2_2: "bucket_range pf 2 (samplesPerBucket 2 2) 0 = (0, 1)"
  by code_simp

lemma range_2_5:
  "bucket_range pf 2 (samplesPerBucket 2 5) 0 = (0, 1)"
  "bucket_range pf 2 (samplesPerBucket 2 5) 1 = (0, 1)"
  by code_simp+

lemma below_1: "(0 \<le> i \<and> i < (1::int)) = (i = 0)"
  by auto

text \<open>
  With \<open>len = 15\<close> and \<open>buckets = 11\<close> the quotient \<open>15 / 11\<close> is rounded down, eleven
  times it is \<open>14.999999999999998\<close>, and the last bucket ends at index 14: the sample
  of index 14 is in no range.
\<close>

lemma last_range_15_11:
  "samplesPerBucket 15 11 = Fin (6141272219141585 / 4503599627370496)"
  "fmul round64 (double_of_int 11) (samplesPerBucket 15 11) = Fin (8444249301319679 / 562949953421312)"
  "bucket_range pf 15 (samplesPerBucket 15 11) 10 = (13, 14)"
  by code_simp+

text \<open>
  With \<open>len = 1073741816\<close> and \<open>buckets = 536870913\<close> the bucket 268435457 has one
  index and the bucket 268435458 has three.
\<close>

lemma ranges_unbalanced:
  "bucket_range pf 1073741816 (samplesPerBucket 1073741816 536870913) 268435457 = (536870909, 536870910)"
  "bucket_range pf 1073741816 (samplesPerBucket 1073741816 536870913) 268435458 = (536870910, 536870913)"
  by code_simp+

text \<open>
  With \<open>buckets = 2^30 + 1\<close> the index \<^verbatim>\<open>bucket * 2\<close> of the last bucket is \<open>2^31\<close>, which is
  no \<^verbatim>\<open>int\<close>: the multiplication wraps to \<open>-2^31\<close>.
\<close>

lemma entries_overflow:
  "entries indefinite (\<lambda>i. 0) 1 (samplesPerBucket 1 1073741825) 1073741824
     = [(- 2147483648, 0), (- 2147483647, 0)]"
  by code_simp

text \<open>
  Up to \<open>2^30\<close> buckets the indices \<^verbatim>\<open>bucket * 2\<close> and \<^verbatim>\<open>bucket * 2 + 1\<close> do not wrap: a
  valid call reads inside \<open>[0, len)\<close> and writes the entries \<open>0, \<dots>, 2 * buckets - 1\<close>,
  each once, from left to right. The reads are inside \<open>[0, len)\<close> for any number of
  buckets.
\<close>

lemma accesses_in_range:
  assumes p: "0 < sint len" "0 < sint buckets"
  shows "\<exists>st. compute_peaks pf (Some samples) len buckets (Some buf) = Some st
     \<and> (\<forall>i \<in> set (reads st). 0 \<le> i \<and> i < sint len)
     \<and> (sint buckets \<le> 1073741824 \<longrightarrow> map fst (writes st) = [0..2 * sint buckets - 1])"
proof -
  from run_structure [OF p, of pf samples buf] obtain st
    where st: "compute_peaks pf (Some samples) len buckets (Some buf) = Some st"
      "map fst (writes st) = map wrap32 [0..2 * sint buckets - 1]" by blast
  have "map fst (writes st) = [0..2 * sint buckets - 1]" if "sint buckets \<le> 1073741824"
    unfolding st(2) using that by (intro map_wrap_id) simp
  with st(1) run_reads [OF p st(1)] show ?thesis by blast
qed

text \<open>
  The buffer is never read: the accesses of a valid call are the same whatever the
  buffer holds, and up to \<open>2^30\<close> buckets the entries \<open>0, \<dots>, 2 * buckets - 1\<close> are all
  written, the others keep their contents, and a second call on the buffer left by the
  first one changes nothing.
\<close>

lemma deterministic_write_only:
  assumes p: "0 < sint len" "0 < sint buckets"
    and r1: "compute_peaks pf (Some samples) len buckets (Some buf1) = Some st1"
    and r2: "compute_peaks pf (Some samples) len buckets (Some buf2) = Some st2"
  shows "reads st1 = reads st2 \<and> writes st1 = writes st2
     \<and> (\<forall>i. i \<in> fst ` set (writes st1) \<longrightarrow> out st1 i = out st2 i)
     \<and> (\<forall>i. i \<notin> fst ` set (writes st1) \<longrightarrow> out st1 i = buf1 i)
     \<and> (sint buckets \<le> 1073741824 \<longrightarrow>
          (\<forall>i. 0 \<le> i \<and> i < 2 * sint buckets \<longrightarrow> out st1 i = out st2 i))
     \<and> compute_peaks pf (Some samples) len buckets (Some (out st1)) = Some st1"
proof -
  let ?spb = "samplesPerBucket (sint len) (sint buckets)"
  obtain rs ws where l: "loop_effect pf samples (sint len) (sint buckets) ?spb 0 = (rs, ws)"
    by (cases "loop_effect pf samples (sint len) (sint buckets) ?spb 0")
  from r1 r2 p l have s: "st1 = after (fresh buf1) rs ws" "st2 = after (fresh buf2) rs ws"
    by (simp_all add: compute_peaks_valid)
  have a: "\<forall>i. i \<in> fst ` set (writes st1) \<longrightarrow> out st1 i = out st2 i"
    unfolding s by (simp add: replay_indep [of _ ws buf1 buf2])
  have b: "\<forall>i. i \<notin> fst ` set (writes st1) \<longrightarrow> out st1 i = buf1 i"
    unfolding s by (simp add: replay_other)
  have c: "sint buckets \<le> 1073741824 \<longrightarrow>
      (\<forall>i. 0 \<le> i \<and> i < 2 * sint buckets \<longrightarrow> out st1 i = out st2 i)"
  proof (intro impI allI)
    fix i assume n: "sint buckets \<le> 1073741824" and i: "0 \<le> i \<and> i < 2 * sint buckets"
    from accesses_in_range [OF p, of pf samples buf1] r1 n
    have "map fst (writes st1) = [0..2 * sint buckets - 1]" by auto
    moreover from i have "i \<in> set [0..2 * sint buckets - 1]" by simp
    ultimately have "i \<in> fst ` set (writes st1)" by (metis set_map)
    with a show "out st1 i = out st2 i" by blast
  qed
  have "after (fresh (out st1)) rs ws = st1"
    unfolding s by (simp add: after_def fresh_def replay_idem)
  then have d: "compute_peaks pf (Some samples) len buckets (Some (out st1)) = Some st1"
    using p l by (simp add: compute_peaks_valid)
  from s a b c d show ?thesis by simp
qed

text \<open>
  When the two products of a bucket, truncated, are \<^verbatim>\<open>int32_t\<close>s, its two entries are
  the products rounded toward zero and clamped.
\<close>

lemma stored_pair:
  assumes p: "0 < sint len" "0 < sint buckets"
    and run: "compute_peaks pf (Some samples) len buckets (Some buf) = Some st"
    and b: "0 \<le> b" "b < sint buckets"
    and r: "bucket_range pf (sint len) (samplesPerBucket (sint len) (sint buckets)) b = (s, en)"
    and m: "spec_extremes samples s en = (minVal, maxVal)"
    and c: "convertible (fmul round32 minVal (Fin 32768))" "convertible (fmul round32 maxVal (Fin 32767))"
  shows "\<exists>scaledMin scaledMax.
      fmul round32 minVal (Fin 32768) = Fin scaledMin
    \<and> fmul round32 maxVal (Fin 32767) = Fin scaledMax
    \<and> sint (out st (int_mul b 2)) = clamp16 (trunc scaledMin)
    \<and> sint (out st (int_add (int_mul b 2) 1)) = clamp16 (trunc scaledMax)"
proof -
  from c obtain a1 a2 where a: "fmul round32 minVal (Fin 32768) = Fin a1" "in_int32 (trunc a1)"
    "fmul round32 maxVal (Fin 32767) = Fin a2" "in_int32 (trunc a2)"
    by (auto simp: convertible_def split: fval.splits)
  then have sc: "scaled pf (minVal, maxVal) = (clamp16 (trunc a1), clamp16 (trunc a2))"
    by (simp add: scaled_def f2i_def)
  from stored_bucket [OF p run b r]
  have "out st (int_mul b 2) = int16_of_int (clamp16 (trunc a1))"
    "out st (int_add (int_mul b 2) 1) = int16_of_int (clamp16 (trunc a2))"
    by (simp_all add: m sc)
  then have "sint (out st (int_mul b 2)) = clamp16 (trunc a1)"
    "sint (out st (int_add (int_mul b 2) 1)) = clamp16 (trunc a2)"
    using clamp16_range by (auto intro!: sint_int16)
  with a show ?thesis by blast
qed

section \<open>Rounding at integers and exact products\<close>

lemma trunc_ge_int: "of_int N \<le> c \<Longrightarrow> N \<le> trunc c"
  unfolding trunc_def by (auto simp: le_floor_iff le_ceiling_iff)

lemma trunc_le_int: "c \<le> of_int N \<Longrightarrow> trunc c \<le> N"
  unfolding trunc_def by (auto simp: floor_le_iff ceiling_le_iff)

lemma trunc_mono: "x \<le> y \<Longrightarrow> trunc x \<le> trunc y"
proof -
  assume xy: "x \<le> y"
  show ?thesis
  proof (cases "0 \<le> x")
    case True
    with xy show ?thesis by (simp add: trunc_def floor_mono)
  next
    case x: False
    show ?thesis
    proof (cases "0 \<le> y")
      case True
      from x have "\<lceil>x\<rceil> \<le> 0" by (simp add: ceiling_le_iff)
      moreover from True have "0 \<le> \<lfloor>y\<rfloor>" by simp
      moreover have "trunc x = \<lceil>x\<rceil>" "trunc y = \<lfloor>y\<rfloor>" using x True by (simp_all add: trunc_def)
      ultimately show ?thesis by linarith
    next
      case False
      with x xy show ?thesis by (simp add: trunc_def ceiling_mono)
    qed
  qed
qed

lemma clamp16_step: "x \<le> y + 1 \<Longrightarrow> clamp16 x \<le> clamp16 y + 1"
  by (simp add: clamp16_def)

text \<open>The form of a rounded number: a multiple of the unit in the last place.\<close>

lemma round_to_form:
  assumes "x \<noteq> 0" "round_to p elo ehi x = Fin r"
  shows "r = of_int (round_even (x / 2 powi max elo (ilog2 \<bar>x\<bar> - (p - 1))))
               * 2 powi max elo (ilog2 \<bar>x\<bar> - (p - 1))"
  using assms by (simp add: round_to_def Let_def split: if_splits)

lemma int_scaled:
  assumes "e \<le> 0"
  shows "(of_int N :: rat) / 2 powi e = of_int (N * 2 ^ nat (- e))"
proof -
  have "(of_int N :: rat) / 2 powi e = of_int N * 2 powi (- e)"
    by (simp add: power_int_minus field_simps)
  also have "(2::rat) powi (- e) = 2 ^ nat (- e)"
    using assms by (simp add: power_int_def)
  finally show ?thesis by simp
qed

text \<open>
  Rounding does not cross an integer, as long as the integers are numbers of the
  format around the rounded value.
\<close>

lemma round_to_ge_int:
  assumes r: "round_to p elo ehi y = Fin r" and N: "of_int N \<le> y"
    and e: "max elo (ilog2 \<bar>y\<bar> - (p - 1)) \<le> 0"
  shows "of_int N \<le> r"
proof (cases "y = 0")
  case True
  with r N show ?thesis by simp
next
  case False
  define e' where "e' = max elo (ilog2 \<bar>y\<bar> - (p - 1))"
  from round_to_form [OF False r]
  have rf: "r = of_int (round_even (y / 2 powi e')) * 2 powi e'" by (simp only: e'_def)
  from e have e0: "e' \<le> 0" by (simp only: e'_def)
  have "of_int N / 2 powi e' \<le> y / 2 powi e'"
    using N by (intro divide_right_mono) simp_all
  then have "of_int (N * 2 ^ nat (- e')) \<le> y / 2 powi e'"
    by (simp only: int_scaled [OF e0])
  then have "N * 2 ^ nat (- e') \<le> round_even (y / 2 powi e')"
    by (rule round_even_mono_int)
  then have "(of_int (N * 2 ^ nat (- e')) :: rat) \<le> of_int (round_even (y / 2 powi e'))"
    by (simp only: of_int_le_iff)
  then have "of_int N / 2 powi e' \<le> (of_int (round_even (y / 2 powi e')) :: rat)"
    by (simp only: int_scaled [OF e0])
  then have "of_int N \<le> of_int (round_even (y / 2 powi e')) * (2::rat) powi e'"
    by (simp add: pos_divide_le_eq)
  then show ?thesis by (simp only: rf)
qed

lemma round_to_le_int:
  assumes r: "round_to p elo ehi y = Fin r" and N: "y \<le> of_int N"
    and e: "max elo (ilog2 \<bar>y\<bar> - (p - 1)) \<le> 0"
  shows "r \<le> of_int N"
proof (cases "y = 0")
  case True
  with r N show ?thesis by simp
next
  case False
  define e' where "e' = max elo (ilog2 \<bar>y\<bar> - (p - 1))"
  from round_to_form [OF False r]
  have rf: "r = of_int (round_even (y / 2 powi e')) * 2 powi e'" by (simp only: e'_def)
  from e have e0: "e' \<le> 0" by (simp only: e'_def)
  have "y / 2 powi e' \<le> of_int N / 2 powi e'"
    using N by (intro divide_right_mono) simp_all
  then have "y / 2 powi e' \<le> of_int (N * 2 ^ nat (- e'))"
    by (simp only: int_scaled [OF e0])
  then have "round_even (y / 2 powi e') \<le> N * 2 ^ nat (- e')"
    by (rule round_even_le_int)
  then have "(of_int (round_even (y / 2 powi e')) :: rat) \<le> of_int (N * 2 ^ nat (- e'))"
    by (simp only: of_int_le_iff)
  then have "(of_int (round_even (y / 2 powi e')) :: rat) \<le> of_int N / 2 powi e'"
    by (simp only: int_scaled [OF e0])
  then have "of_int (round_even (y / 2 powi e')) * (2::rat) powi e' \<le> of_int N"
    by (simp add: pos_le_divide_eq)
  then show ?thesis by (simp only: rf)
qed

text \<open>A positive value at least \<open>N \<le> 2^p\<close> is not rounded below \<open>N\<close>.\<close>

lemma round_to_ge_int_pos:
  assumes r: "round_to p elo ehi y = Fin r" and N: "of_int N \<le> y" "N \<le> 2 ^ nat p"
    and y: "0 < y" and p: "1 \<le> p" and elo: "elo \<le> 0"
  shows "of_int N \<le> r"
proof (cases "ilog2 \<bar>y\<bar> - (p - 1) \<le> 0")
  case True
  with elo have "max elo (ilog2 \<bar>y\<bar> - (p - 1)) \<le> 0" by simp
  from round_to_ge_int [OF r N(1) this] show ?thesis .
next
  case False
  define e where "e = ilog2 \<bar>y\<bar> - (p - 1)"
  from False elo have e: "0 < e" "max elo (ilog2 \<bar>y\<bar> - (p - 1)) = e" by (simp_all add: e_def)
  from y have y0: "y \<noteq> 0" and ay: "\<bar>y\<bar> = y" by simp_all
  from round_to_form [OF y0 r]
  have rf: "r = of_int (round_even (y / 2 powi e)) * 2 powi e" by (simp only: e(2))
  have "(2::rat) powi (p - 1) * 2 powi e = 2 powi ilog2 y"
    by (simp add: e_def ay flip: pow2_add)
  also have "\<dots> \<le> y" using ilog2_bounds(1) [OF y] .
  finally have "(2::rat) powi (p - 1) \<le> y / 2 powi e" by (simp add: pos_le_divide_eq)
  moreover have "(2::rat) powi (p - 1) = of_int (2 ^ nat (p - 1))"
    using p by (simp add: power_int_def)
  ultimately have "of_int (2 ^ nat (p - 1)) \<le> y / 2 powi e" by simp
  then have m: "2 ^ nat (p - 1) \<le> round_even (y / 2 powi e)" by (rule round_even_mono_int)
  have "(2::rat) powi p = 2 powi ((p - 1) + 1)" by simp
  also have "\<dots> = 2 powi (p - 1) * 2 powi 1" by (simp only: pow2_add)
  also have "\<dots> \<le> 2 powi (p - 1) * 2 powi e"
    using e(1) by (intro mult_left_mono pow2_mono) simp_all
  also have "\<dots> = of_int (2 ^ nat (p - 1)) * 2 powi e"
    using p by (simp add: power_int_def)
  also have "\<dots> \<le> of_int (round_even (y / 2 powi e)) * 2 powi e"
    using m by (intro mult_right_mono) (simp_all only: of_int_le_iff, simp)
  finally have "(2::rat) powi p \<le> r" by (simp only: rf)
  moreover have "(of_int N :: rat) \<le> of_int (2 ^ nat p)" using N(2) by (simp only: of_int_le_iff)
  moreover have "(of_int (2 ^ nat p) :: rat) = 2 powi p" using p by (simp add: power_int_def)
  ultimately show ?thesis by linarith
qed

text \<open>A number of the format is rounded to itself.\<close>

lemma round_to_exact:
  assumes r: "representable p elo x" and p: "1 \<le> p"
  shows "round_to p elo ehi x = Fin x \<or> round_to p elo ehi x = Inf (x < 0)"
proof (cases "x = 0")
  case True
  then show ?thesis by simp
next
  case False
  from r obtain m0 e0 where x: "x = of_int m0 * 2 powi e0" and m0: "\<bar>m0\<bar> < 2 ^ nat p" and e0: "elo \<le> e0"
    unfolding representable_def by blast
  define e where "e = max elo (ilog2 \<bar>x\<bar> - (p - 1))"
  from False have ax: "0 < \<bar>x\<bar>" by simp
  have "\<bar>x\<bar> = of_int \<bar>m0\<bar> * 2 powi e0" by (simp add: x abs_mult)
  also have "\<dots> < of_int (2 ^ nat p) * 2 powi e0"
    using m0 by (intro mult_strict_right_mono) (simp_all only: of_int_less_iff pow2_pos)
  also have "of_int (2 ^ nat p) = (2::rat) powi p" using p by (simp add: power_int_def)
  also have "2 powi p * 2 powi e0 = (2::rat) powi (p + e0)" by (simp only: pow2_add)
  finally have "ilog2 \<bar>x\<bar> < p + e0" using ilog2_less [OF ax] by simp
  with e0 have ee: "e \<le> e0" by (simp add: e_def)
  define k where "k = m0 * 2 ^ nat (e0 - e)"
  have "(2::rat) powi e0 = 2 powi (e0 - e) * 2 powi e" by (simp flip: pow2_add)
  also have "(2::rat) powi (e0 - e) = of_int (2 ^ nat (e0 - e))" using ee by (simp add: power_int_def)
  finally have xk: "x = of_int k * 2 powi e" by (simp add: x k_def)
  then have "x / 2 powi e = of_int k" by simp
  then have m: "round_even (x / 2 powi e) = k" by simp
  show ?thesis
    using False xk unfolding round_to_def Let_def e_def [symmetric] m by simp
qed

lemma representable_neg: "representable p elo q \<Longrightarrow> representable p elo (- q)"
proof -
  assume "representable p elo q"
  then obtain m e where "q = of_int m * 2 powi e" "\<bar>m\<bar> < 2 ^ nat p" "elo \<le> e"
    unfolding representable_def by blast
  then have "- q = of_int (- m) * 2 powi e" "\<bar>- m\<bar> < 2 ^ nat p" "elo \<le> e" by simp_all
  then show ?thesis unfolding representable_def by blast
qed

lemma representable_scale:
  assumes "representable p elo q" "0 \<le> k"
  shows "representable p elo (q * 2 powi k)"
proof -
  from assms(1) obtain m e where q: "q = of_int m * 2 powi e" "\<bar>m\<bar> < 2 ^ nat p" "elo \<le> e"
    unfolding representable_def by blast
  have "q * 2 powi k = of_int m * 2 powi (e + k)" by (simp add: q(1) pow2_add)
  moreover from q(3) assms(2) have "elo \<le> e + k" by simp
  ultimately show ?thesis using q(2) unfolding representable_def by blast
qed

lemma representable_1: "representable 24 (- 149) 1"
proof -
  have "(1::rat) = of_int 1 * 2 powi 0" "\<bar>1::int\<bar> < 2 ^ nat 24" "(- 149 :: int) \<le> 0" by simp_all
  then show ?thesis unfolding representable_def by blast
qed

text \<open>The value of a finite \<^verbatim>\<open>float\<close> is a binary32 number.\<close>

lemma valof32_representable:
  assumes "valof32 w = Fin q"
  shows "representable 24 (- 149) q"
proof -
  define e m where "e = uint (take_bit 8 (drop_bit 23 w))" and "m = uint (take_bit 23 w)"
  have m: "0 \<le> m" "m < 8388608"
    unfolding m_def using take_bit_int_less_exp [of 23 "uint w"]
    by (simp_all add: unsigned_take_bit_eq)
  have e: "0 \<le> e" unfolding e_def by simp
  define q0 where "q0 = (if e = 0 then of_int m * 2 powi (- 149)
                       else of_int (8388608 + m) * (2::rat) powi (e - 150))"
  have r0: "representable 24 (- 149) q0"
  proof (cases "e = 0")
    case True
    have 1: "\<bar>m\<bar> < 2 ^ nat 24" using m by simp
    have 2: "q0 = of_int m * 2 powi (- 149)" unfolding q0_def by (rule if_P [OF True])
    have 3: "(- 149 :: int) \<le> - 149" by simp
    from 1 2 3 show ?thesis unfolding representable_def by blast
  next
    case False
    with e have e1: "- 149 \<le> e - 150" by simp
    have 1: "\<bar>8388608 + m\<bar> < 2 ^ nat 24" using m by simp
    have 2: "q0 = of_int (8388608 + m) * 2 powi (e - 150)" unfolding q0_def by (rule if_not_P [OF False])
    from 1 2 e1 show ?thesis unfolding representable_def by blast
  qed
  from assms have "q = q0 \<or> q = - q0"
    by (auto simp: valof32_def Let_def e_def [symmetric] m_def [symmetric] q0_def split: if_splits)
  with r0 representable_neg [OF r0] show ?thesis by auto
qed

lemma foldl_lower_in: "foldl lower m vs = m \<or> foldl lower m vs \<in> set vs"
proof (induction vs arbitrary: m)
  case Nil
  then show ?case by simp
next
  case (Cons v vs)
  from Cons.IH [of "lower m v"] show ?case by (auto simp: lower_def split: if_splits)
qed

text \<open>
  The two scaled extremes of a bucket, for \<open>minVal \<le> maxVal\<close>: the product by \<open>32768\<close> is
  exact, the product by \<open>32767\<close> is rounded, and after the truncations the minimum
  exceeds the maximum by one at most.
\<close>

lemma scaled_order:
  assumes mM: "m \<le> M" and rep: "representable 24 (- 149) m"
    and a: "round32 (m * 32768) = Fin a" and c: "round32 (M * 32767) = Fin c"
  shows "clamp16 (trunc a) \<le> clamp16 (trunc c) + 1"
proof -
  have "(32768::rat) = 2 powi 15" by simp
  then have "representable 24 (- 149) (m * 32768)"
    using representable_scale [OF rep, of 15] by simp
  from round_to_exact [OF this, of 128] a have am: "a = m * 32768"
    by (simp add: round32_def)
  note c' = c [unfolded round32_def]
  consider (A) "1 \<le> M" | (B) "m \<le> - 1" | (C) "M < 1" "- 1 < m" by linarith
  then show ?thesis
  proof cases
    case A
    then have 1: "of_int 32767 \<le> M * 32767" and 2: "0 < M * 32767" by simp_all
    from round_to_ge_int_pos [OF c' 1 _ 2] have "of_int 32767 \<le> c" by simp
    then have "32767 \<le> trunc c" by (rule trunc_ge_int)
    then have "clamp16 (trunc c) = 32767" by (simp add: clamp16_def)
    with clamp16_range [of "trunc a"] show ?thesis by simp
  next
    case B
    then have "a \<le> of_int (- 32768)" by (simp add: am)
    then have "trunc a \<le> - 32768" by (rule trunc_le_int)
    then have "clamp16 (trunc a) = - 32768" by (simp add: clamp16_def)
    with clamp16_range [of "trunc c"] show ?thesis by simp
  next
    case C
    let ?Y = "M * 32767"
    from C mM have M: "- 1 < M" "M < 1" by simp_all
    then have Y: "\<bar>?Y\<bar> < 2 powi 15" by (simp add: abs_less_iff)
    have "of_int \<lfloor>?Y\<rfloor> \<le> c"
    proof (cases "?Y = 0")
      case True
      with c' show ?thesis by simp
    next
      case False
      then have "0 < \<bar>?Y\<bar>" by simp
      from ilog2_less [OF this Y] have e: "max (- 149) (ilog2 \<bar>?Y\<bar> - (24 - 1)) \<le> 0" by simp
      have "of_int \<lfloor>?Y\<rfloor> \<le> ?Y" by simp
      from round_to_ge_int [OF c' this e] show ?thesis .
    qed
    then have fc: "\<lfloor>?Y\<rfloor> \<le> trunc c" by (rule trunc_ge_int)
    have "trunc a \<le> trunc (M * 32768)"
      unfolding am using mM by (intro trunc_mono) simp
    also have "trunc (M * 32768) \<le> \<lfloor>?Y\<rfloor> + 1"
    proof (cases "0 \<le> M")
      case True
      from M(2) have "M * 32768 < ?Y + 1" by simp
      then have "M * 32768 < of_int (\<lfloor>?Y\<rfloor> + 1 + 1)" by (simp add: floor_less_iff) linarith
      then have "\<lfloor>M * 32768\<rfloor> < \<lfloor>?Y\<rfloor> + 1 + 1" by (simp only: floor_less_iff)
      with True show ?thesis by (simp add: trunc_def)
    next
      case False
      then have "M * 32768 \<le> ?Y" by simp
      also have "?Y \<le> of_int (\<lfloor>?Y\<rfloor> + 1)" by simp linarith
      finally have "\<lceil>M * 32768\<rceil> \<le> \<lfloor>?Y\<rfloor> + 1" by (simp only: ceiling_le_iff)
      with False show ?thesis by (simp add: trunc_def)
    qed
    finally have "trunc a \<le> trunc c + 1" using fc by linarith
    then show ?thesis by (rule clamp16_step)
  qed
qed

text \<open>The extremes of a range that holds a sample that is not NaN.\<close>

lemma extremes_bracket:
  assumes i: "s \<le> i" "i < en" and v: "valof32 (samples i) \<noteq> NaN"
    and m: "spec_extremes samples s en = (minVal, maxVal)"
  shows "fle minVal (valof32 (samples i)) \<and> fle (valof32 (samples i)) maxVal \<and> fle minVal maxVal"
proof -
  let ?vs = "map (\<lambda>j. valof32 (samples j)) [s..en - 1]"
  from m have mm: "minVal = foldl lower (Fin 1) ?vs" "maxVal = foldl upper (Fin (- 1)) ?vs"
    by (simp_all add: spec_extremes_def Let_def)
  from i have "valof32 (samples i) \<in> set ?vs" by simp
  from fold_lower_le_elem [OF _ this v, of "Fin 1"] fold_upper_ge_elem [OF _ this v, of "Fin (- 1)"]
  have "fle minVal (valof32 (samples i))" "fle (valof32 (samples i)) maxVal"
    unfolding mm by simp_all
  then show ?thesis by (auto intro: fle_trans)
qed

lemma minVal_representable:
  assumes "fst (spec_extremes samples s en) = Fin m"
  shows "representable 24 (- 149) m"
proof -
  let ?vs = "map (\<lambda>j. valof32 (samples j)) [s..en - 1]"
  from assms have f: "foldl lower (Fin 1) ?vs = Fin m" by (simp add: spec_extremes_def Let_def)
  from foldl_lower_in [of "Fin 1" ?vs] show ?thesis
  proof
    assume "foldl lower (Fin 1) ?vs = Fin 1"
    with f have "m = 1" by simp
    then show ?thesis by (simp add: representable_1)
  next
    assume "foldl lower (Fin 1) ?vs \<in> set ?vs"
    with f obtain j where "valof32 (samples j) = Fin m" by auto
    then show ?thesis by (rule valof32_representable)
  qed
qed

text \<open>Rounding does not cross a number of the format that is farther from zero.\<close>

lemma round_to_ge_rep:
  assumes r: "round_to p elo ehi y = Fin r" and x: "representable p elo x"
    and xy: "x \<le> y" "y < 0" and p: "1 \<le> p"
  shows "x \<le> r"
proof -
  from x obtain m0 e0 where x0: "x = of_int m0 * 2 powi e0" and m0: "\<bar>m0\<bar> < 2 ^ nat p" and e0: "elo \<le> e0"
    unfolding representable_def by blast
  define e where "e = max elo (ilog2 \<bar>y\<bar> - (p - 1))"
  from xy have y0: "y \<noteq> 0" and ay: "0 < \<bar>y\<bar>" and le: "\<bar>y\<bar> \<le> \<bar>x\<bar>" by simp_all
  from round_to_form [OF y0 r]
  have rf: "r = of_int (round_even (y / 2 powi e)) * 2 powi e" by (simp only: e_def)
  have "\<bar>x\<bar> = of_int \<bar>m0\<bar> * 2 powi e0" by (simp add: x0 abs_mult)
  also have "\<dots> < of_int (2 ^ nat p) * 2 powi e0"
    using m0 by (intro mult_strict_right_mono) (simp_all only: of_int_less_iff pow2_pos)
  also have "of_int (2 ^ nat p) = (2::rat) powi p" using p by (simp add: power_int_def)
  also have "2 powi p * 2 powi e0 = (2::rat) powi (p + e0)" by (simp only: pow2_add)
  finally have "\<bar>y\<bar> < 2 powi (p + e0)" using le by linarith
  from ilog2_less [OF ay this] e0 have ee: "e \<le> e0" by (simp add: e_def)
  define k where "k = m0 * 2 ^ nat (e0 - e)"
  have "(2::rat) powi e0 = 2 powi (e0 - e) * 2 powi e" by (simp flip: pow2_add)
  also have "(2::rat) powi (e0 - e) = of_int (2 ^ nat (e0 - e))" using ee by (simp add: power_int_def)
  finally have xk: "x = of_int k * 2 powi e" by (simp add: x0 k_def)
  then have "of_int k = x / 2 powi e" by simp
  also have "\<dots> \<le> y / 2 powi e" using xy(1) by (intro divide_right_mono) simp_all
  finally have "k \<le> round_even (y / 2 powi e)" by (rule round_even_mono_int)
  then have "(of_int k :: rat) \<le> of_int (round_even (y / 2 powi e))" by (simp only: of_int_le_iff)
  then have "of_int k * (2::rat) powi e \<le> of_int (round_even (y / 2 powi e)) * 2 powi e"
    by (intro mult_right_mono) simp_all
  then show ?thesis by (simp only: xk rf)
qed

lemma foldl_upper_in: "foldl upper m vs = m \<or> foldl upper m vs \<in> set vs"
proof (induction vs arbitrary: m)
  case Nil
  then show ?case by simp
next
  case (Cons v vs)
  from Cons.IH [of "upper m v"] show ?case by (auto simp: upper_def split: if_splits)
qed

lemma maxVal_representable:
  assumes "snd (spec_extremes samples s en) = Fin m"
  shows "representable 24 (- 149) m"
proof -
  let ?vs = "map (\<lambda>j. valof32 (samples j)) [s..en - 1]"
  from assms have f: "foldl upper (Fin (- 1)) ?vs = Fin m" by (simp add: spec_extremes_def Let_def)
  from foldl_upper_in [of "Fin (- 1)" ?vs] show ?thesis
  proof
    assume "foldl upper (Fin (- 1)) ?vs = Fin (- 1)"
    with f have "m = - 1" by simp
    then show ?thesis using representable_neg [OF representable_1] by simp
  next
    assume "foldl upper (Fin (- 1)) ?vs \<in> set ?vs"
    with f obtain j where "valof32 (samples j) = Fin m" by auto
    then show ?thesis by (rule valof32_representable)
  qed
qed

text \<open>Below zero the truncations keep the order of the two scaled extremes.\<close>

lemma scaled_order_neg:
  assumes mM: "m \<le> M" "M < 0" and rep: "representable 24 (- 149) m" "representable 24 (- 149) M"
    and a: "round32 (m * 32768) = Fin a" and c: "round32 (M * 32767) = Fin c"
  shows "clamp16 (trunc a) \<le> clamp16 (trunc c)"
proof -
  have "representable 24 (- 149) (m * 32768)"
    using representable_scale [OF rep(1), of 15] by simp
  from round_to_exact [OF this, of 128] a have am: "a = m * 32768"
    by (simp add: round32_def)
  have rM: "representable 24 (- 149) (M * 32768)"
    using representable_scale [OF rep(2), of 15] by simp
  from mM(2) have "M * 32768 \<le> M * 32767" "M * 32767 < 0" by simp_all
  from round_to_ge_rep [OF c [unfolded round32_def] rM this] have "M * 32768 \<le> c" by simp
  moreover have "a \<le> M * 32768" using mM(1) by (simp add: am)
  ultimately have "a \<le> c" by linarith
  then have "trunc a \<le> trunc c" by (rule trunc_mono)
  then show ?thesis by (simp add: clamp16_def)
qed

text \<open>
  The two values of a bucket whose range holds a sample that is not NaN and whose two
  conversions are defined: the minimum exceeds the maximum by one at most, and not at
  all below zero.
\<close>

lemma stored_order:
  assumes i: "s \<le> i" "i < en" and v: "valof32 (samples i) \<noteq> NaN"
    and m: "spec_extremes samples s en = (minVal, maxVal)"
    and c: "convertible (fmul round32 minVal (Fin 32768))" "convertible (fmul round32 maxVal (Fin 32767))"
  shows "fst (scaled pf (minVal, maxVal)) \<le> snd (scaled pf (minVal, maxVal)) + 1"
    and "snd (scaled pf (minVal, maxVal)) < 0
           \<Longrightarrow> fst (scaled pf (minVal, maxVal)) \<le> snd (scaled pf (minVal, maxVal))"
proof -
  from c obtain a1 a2 where a: "fmul round32 minVal (Fin 32768) = Fin a1" "in_int32 (trunc a1)"
    "fmul round32 maxVal (Fin 32767) = Fin a2" "in_int32 (trunc a2)"
    by (auto simp: convertible_def split: fval.splits)
  then have sc: "scaled pf (minVal, maxVal) = (clamp16 (trunc a1), clamp16 (trunc a2))"
    by (simp add: scaled_def f2i_def)
  from a(1) obtain m' where m': "minVal = Fin m'" "round32 (m' * 32768) = Fin a1"
    by (cases minVal) (auto split: if_splits)
  from a(3) obtain M' where M': "maxVal = Fin M'" "round32 (M' * 32767) = Fin a2"
    by (cases maxVal) (auto split: if_splits)
  from extremes_bracket [OF i v m] have le: "m' \<le> M'" by (simp add: m' M')
  from m m'(1) have "fst (spec_extremes samples s en) = Fin m'" by simp
  then have rep: "representable 24 (- 149) m'" by (rule minVal_representable)
  from m M'(1) have "snd (spec_extremes samples s en) = Fin M'" by simp
  then have rep': "representable 24 (- 149) M'" by (rule maxVal_representable)
  from scaled_order [OF le rep m'(2) M'(2)]
  show "fst (scaled pf (minVal, maxVal)) \<le> snd (scaled pf (minVal, maxVal)) + 1"
    by (simp add: sc)
  show "fst (scaled pf (minVal, maxVal)) \<le> snd (scaled pf (minVal, maxVal))"
    if neg: "snd (scaled pf (minVal, maxVal)) < 0"
  proof -
    have "M' < 0"
    proof (rule ccontr)
      assume "\<not> M' < 0"
      then have 0: "of_int 0 \<le> M' * 32767" by simp
      have "of_int 0 \<le> a2"
      proof (cases "M' * 32767 = 0")
        case True
        with M'(2) show ?thesis by (simp add: round32_def)
      next
        case False
        with 0 have "0 < M' * 32767" by simp
        from round_to_ge_int_pos [OF M'(2) [unfolded round32_def] 0 _ this] show ?thesis by simp
      qed
      then have "0 \<le> trunc a2" by (rule trunc_ge_int)
      then have "0 \<le> clamp16 (trunc a2)" by (simp add: clamp16_def)
      with neg show False by (simp add: sc)
    qed
    from scaled_order_neg [OF le this rep rep' m'(2) M'(2)] show ?thesis by (simp add: sc)
  qed
qed

section \<open>The claims\<close>

text \<open>
  C1. A call in which \<open>samples\<close> is null, \<open>outMinMax\<close> is null, \<open>len \<le> 0\<close> or
  \<open>buckets \<le> 0\<close> does nothing: the output buffer is as it was, nothing has been read
  and nothing has been written. The function returns nothing, so no error is signalled.
\<close>

theorem C1_invalid_call_no_op:
  assumes "samples = None \<or> outMinMax = None \<or> sint len \<le> 0 \<or> sint buckets \<le> 0"
  shows "compute_peaks pf samples len buckets outMinMax =
           map_option (\<lambda>buf. \<lparr>out = buf, reads = [], writes = []\<rparr>) outMinMax"
  using assms by (auto simp: compute_peaks_def fresh_def [abs_def])

theorem C1_invalid_call_no_op_witness:
  "sint (0 :: 32 word) \<le> 0 \<and>
   compute_peaks indefinite (Some (\<lambda>i. 0)) 0 2 (Some (\<lambda>i. 42)) =
     Some \<lparr>out = \<lambda>i. 42, reads = [], writes = []\<rparr>"
  using C1_invalid_call_no_op [of "Some (\<lambda>i. 0)" "Some (\<lambda>i. 42)" 0 2 indefinite] by simp

text \<open>
  C2. The claim holds of every valid call with \<open>buckets \<le> 2^30\<close>, whatever the samples
  (lemma \<open>accesses_in_range\<close>). It fails beyond: the index \<^verbatim>\<open>bucket * 2\<close> of lines 35
  and 36 is computed in \<^verbatim>\<open>int\<close>. In the valid call \<open>len = 1\<close>, \<open>buckets = 2^30 + 1\<close> the
  product for the last bucket is \<open>2^31\<close>: it wraps to \<open>-2^31\<close>, the two stores of that
  bucket go to the entries \<open>-2^31\<close> and \<open>-2^31 + 1\<close>, before the buffer, and the entry
  \<open>2^31\<close>, which is below \<open>2 * buckets\<close>, is never written.
\<close>

theorem C2_index_overflow:
  "sint (1 :: 32 word) = 1 \<and> sint (1073741825 :: 32 word) = 1073741825
   \<and> int_mul 1073741824 2 = - 2147483648
   \<and> (\<exists>st. compute_peaks indefinite (Some (\<lambda>i. 0)) 1 1073741825 (Some (\<lambda>i. 0)) = Some st
         \<and> (- 2147483648, 0) \<in> set (writes st) \<and> (- 2147483647, 0) \<in> set (writes st)
         \<and> 2147483648 \<notin> fst ` set (writes st)
         \<and> length (writes st) = 2147483650)"
proof -
  have p: "0 < sint (1 :: 32 word)" "0 < sint (1073741825 :: 32 word)" by simp_all
  have n: "sint (1073741825 :: 32 word) = 1073741825" by simp
  from run_structure [OF p, of indefinite "\<lambda>i. 0" "\<lambda>i. 0"] obtain st
    where st: "compute_peaks indefinite (Some (\<lambda>i. 0)) 1 1073741825 (Some (\<lambda>i. 0)) = Some st"
      "map fst (writes st) = map wrap32 [0..2 * sint (1073741825 :: 32 word) - 1]"
      "length (writes st) = nat (2 * sint (1073741825 :: 32 word))" by blast
  from entries_written [OF p st(1), of 1073741824]
  have "set (entries indefinite (\<lambda>i. 0) 1 (samplesPerBucket 1 1073741825) 1073741824)
          \<subseteq> set (writes st)" by simp
  then have w: "(- 2147483648, 0) \<in> set (writes st)" "(- 2147483647, 0) \<in> set (writes st)"
    by (simp_all add: entries_overflow)
  have u: "2147483648 \<notin> fst ` set (writes st)"
  proof
    assume "2147483648 \<in> fst ` set (writes st)"
    then have "2147483648 \<in> set (map fst (writes st))" by simp
    then have "2147483648 \<in> wrap32 ` set [0..2 * sint (1073741825 :: 32 word) - 1]"
      by (simp only: st(2) set_map)
    then obtain i where "2147483648 = wrap32 i" by blast
    with wrap32_range [of i] show False by (simp add: in_int32_def)
  qed
  have l: "length (writes st) = 2147483650" using st(3) by (simp add: n)
  have m: "int_mul 1073741824 2 = - 2147483648" by (simp add: int_mul_def wrap32_def)
  from st(1) w u l m show ?thesis by auto
qed

text \<open>
  C3. The first scenario of the specification: the samples
  \<open>0.0, 0.5, -0.5, 1.0, -1.0, 0.25\<close> (given by their bits), \<open>len = 6\<close>, \<open>buckets = 2\<close>.
  Bucket 0 scans the indices 0 to 2, bucket 1 the indices 3 to 5, and the call stores
  \<open>-16384, 16383, -32768, 32767\<close>.
\<close>

theorem C3_scenario_1:
  "map valof32 [0x00000000, 0x3F000000, 0xBF000000, 0x3F800000, 0xBF800000, 0x3E800000]
     = [Fin 0, Fin (1 / 2), Fin (- (1 / 2)), Fin 1, Fin (- 1), Fin (1 / 4)]
   \<and> bucket_range pf 6 (samplesPerBucket 6 2) 0 = (0, 3)
   \<and> bucket_range pf 6 (samplesPerBucket 6 2) 1 = (3, 6)
   \<and> compute_peaks pf
        (Some (buffer [0x00000000, 0x3F000000, 0xBF000000, 0x3F800000, 0xBF800000, 0x3E800000] rest))
        6 2 (Some buf)
      = Some \<lparr>out = buf(0 := - 16384, 1 := 16383, 2 := - 32768, 3 := 32767),
              reads = [0, 1, 2, 3, 4, 5],
              writes = [(0, - 16384), (1, 16383), (2, - 32768), (3, 32767)]\<rparr>
   \<and> map sint [- 16384, 16383, - 32768, 32767 :: 16 word] = [- 16384, 16383, - 32768, 32767]"
proof -
  have 1: "map valof32 [0x00000000, 0x3F000000, 0xBF000000, 0x3F800000, 0xBF800000, 0x3E800000]
     = [Fin 0, Fin (1 / 2), Fin (- (1 / 2)), Fin 1, Fin (- 1), Fin (1 / 4)]"
    by code_simp
  have 2: "bucket_range pf 6 (samplesPerBucket 6 2) 0 = (0, 3)"
    by code_simp
  have 3: "bucket_range pf 6 (samplesPerBucket 6 2) 1 = (3, 6)"
    by code_simp
  have "loop_effect pf
      (buffer [0x00000000, 0x3F000000, 0xBF000000, 0x3F800000, 0xBF800000, 0x3E800000] rest)
      6 2 (samplesPerBucket 6 2) 0
    = ([0, 1, 2, 3, 4, 5], [(0, - 16384), (1, 16383), (2, - 32768), (3, 32767)])"
    by code_simp
  then have 4: "compute_peaks pf
        (Some (buffer [0x00000000, 0x3F000000, 0xBF000000, 0x3F800000, 0xBF800000, 0x3E800000] rest))
        6 2 (Some buf)
      = Some \<lparr>out = buf(0 := - 16384, 1 := 16383, 2 := - 32768, 3 := 32767),
              reads = [0, 1, 2, 3, 4, 5],
              writes = [(0, - 16384), (1, 16383), (2, - 32768), (3, 32767)]\<rparr>"
    by (simp add: compute_peaks_valid after_def fresh_def replay_def int16_of_int_def)
  have 5: "map sint [- 16384, 16383, - 32768, 32767 :: 16 word] = [- 16384, 16383, - 32768, 32767]"
    by simp
  from 1 2 3 4 5 show ?thesis by blast
qed

text \<open>
  C4. The claim holds of every bucket whose two products, truncated, are
  \<^verbatim>\<open>int32_t\<close>s (lemma \<open>stored_pair\<close>), for instance when all samples are NaN or of
  magnitude at most 65535. It fails beyond, because lines 32 and 33 convert the
  products to \<^verbatim>\<open>int32_t\<close> before lines 35 and 36 clamp them. For the single sample
  \<open>1e10\<close> (bits \<^verbatim>\<open>0x501502F9\<close>), \<open>len = 1\<close>, \<open>buckets = 1\<close>: \<open>minVal\<close> is \<open>1.0\<close> and \<open>maxVal\<close> is
  \<open>1e10\<close>, the product \<open>maxVal * 32767.0f\<close> is \<open>327670000779264\<close>, which clamped into
  \<open>[-32768, 32767]\<close> is \<open>32767\<close>; the conversion of this product to \<^verbatim>\<open>int32_t\<close> is out
  of range, on x86 it gives \<open>-2^31\<close>, and the function stores \<open>-32768\<close> as the maximum.
\<close>

theorem C4_conversion_before_clamp:
  "valof32 0x501502F9 = Fin 10000000000
   \<and> bucket_range indefinite 1 (samplesPerBucket 1 1) 0 = (0, 1)
   \<and> spec_extremes (buffer [0x501502F9] (\<lambda>i. 0)) 0 1 = (Fin 1, Fin 10000000000)
   \<and> fmul round32 (Fin 10000000000) (Fin 32767) = Fin 327670000779264
   \<and> spec_scaled (Fin 1, Fin 10000000000) = Some (32767, 32767)
   \<and> f2i indefinite (Fin 327670000779264) = - 2147483648
   \<and> compute_peaks indefinite (Some (buffer [0x501502F9] (\<lambda>i. 0))) 1 1 (Some buf)
       = Some \<lparr>out = buf(0 := 32767, 1 := - 32768), reads = [0],
               writes = [(0, 32767), (1, - 32768)]\<rparr>
   \<and> sint (- 32768 :: 16 word) = - 32768"
proof -
  have 1: "bucket_range indefinite 1 (samplesPerBucket 1 1) 0 = (0, 1)" by (rule range_1_1)
  have 2: "spec_extremes (buffer [0x501502F9] (\<lambda>i. 0)) 0 1 = (Fin 1, Fin 10000000000)"
    by code_simp
  have 3: "fmul round32 (Fin 10000000000) (Fin 32767) = Fin 327670000779264" by code_simp
  have 4: "spec_scaled (Fin 1, Fin 10000000000) = Some (32767, 32767)" by code_simp
  have 5: "f2i indefinite (Fin 327670000779264) = - 2147483648" by code_simp
  have 6: "compute_peaks indefinite (Some (buffer [0x501502F9] (\<lambda>i. 0))) 1 1 (Some buf)
       = Some \<lparr>out = buf(0 := 32767, 1 := - 32768), reads = [0],
               writes = [(0, 32767), (1, - 32768)]\<rparr>"
    by (simp add: compute_peaks_valid run_huge after_def fresh_def replay_def int16_of_int_def)
  have 7: "sint (- 32768 :: 16 word) = - 32768" by simp
  from val_huge 1 2 3 4 5 6 7 show ?thesis by blast
qed

text \<open>
  C6, as amended. Take a bucket of a valid call whose range holds a sample that is not
  NaN and whose two conversions of lines 32 and 33 are defined (both products,
  truncated, are \<^verbatim>\<open>int32_t\<close>s; so it is when the samples of the range are of magnitude at
  most 65535). Then \<open>minVal \<le> maxVal\<close> before the scaling, and the stored minimum exceeds
  the stored maximum by one at most and, when the stored maximum is negative, not at
  all; in comparable scale, the stored minimum divided by 32768 is at most the stored
  maximum plus one, divided by 32767.
\<close>

theorem C6_stored_min_max:
  assumes p: "0 < sint len" "0 < sint buckets"
    and run: "compute_peaks pf (Some samples) len buckets (Some buf) = Some st"
    and b: "0 \<le> b" "b < sint buckets"
    and rng: "bucket_range pf (sint len) (samplesPerBucket (sint len) (sint buckets)) b = (s, en)"
    and sc: "scan samples s en (Fin 1, Fin (- 1), []) = (minVal, maxVal, rs)"
    and i: "s \<le> i" "i < en" and v: "valof32 (samples i) \<noteq> NaN"
    and c: "convertible (fmul round32 minVal (Fin 32768))" "convertible (fmul round32 maxVal (Fin 32767))"
  shows "fle minVal maxVal
     \<and> sint (out st (int_mul b 2)) \<le> sint (out st (int_add (int_mul b 2) 1)) + 1
     \<and> (sint (out st (int_add (int_mul b 2) 1)) < 0 \<longrightarrow>
          sint (out st (int_mul b 2)) \<le> sint (out st (int_add (int_mul b 2) 1)))
     \<and> (of_int (sint (out st (int_mul b 2))) :: rat) / 32768
          \<le> (of_int (sint (out st (int_add (int_mul b 2) 1))) + 1) / 32767"
proof -
  from sc have m: "spec_extremes samples s en = (minVal, maxVal)"
    by (auto simp: scan_eq spec_extremes_def Let_def)
  define smin smax where "smin = fst (scaled pf (minVal, maxVal))"
    and "smax = snd (scaled pf (minVal, maxVal))"
  from scaled_range [of pf "(minVal, maxVal)"]
  have r: "- 32768 \<le> smin" "smin \<le> 32767" "- 32768 \<le> smax" "smax \<le> 32767"
    by (simp_all add: smin_def smax_def)
  from stored_bucket [OF p run b rng]
  have "out st (int_mul b 2) = int16_of_int smin" "out st (int_add (int_mul b 2) 1) = int16_of_int smax"
    by (simp_all add: m smin_def smax_def)
  with r have o: "sint (out st (int_mul b 2)) = smin" "sint (out st (int_add (int_mul b 2) 1)) = smax"
    by (simp_all add: sint_int16)
  from stored_order [OF i v m c, of pf]
  have 1: "smin \<le> smax + 1" and 2: "smax < 0 \<longrightarrow> smin \<le> smax"
    by (simp_all add: smin_def smax_def)
  have 3: "(of_int smin :: rat) / 32768 \<le> (of_int smax + 1) / 32767"
  proof (cases "smax < 0")
    case True
    with 2 have "smin \<le> smax" by simp
    then have "(of_int smin :: rat) \<le> of_int smax" by (simp only: of_int_le_iff)
    moreover from r(3) have "(- 32768 :: rat) \<le> of_int smax"
      using of_int_le_iff [of "- 32768" smax, where 'a = rat] by simp
    ultimately show ?thesis by (simp add: field_simps)
  next
    case False
    then have "(0 :: rat) \<le> of_int smax" by simp
    moreover from 1 have "(of_int smin :: rat) \<le> of_int (smax + 1)" by (simp only: of_int_le_iff)
    ultimately show ?thesis by (simp add: field_simps)
  qed
  from extremes_bracket [OF i v m] 1 2 3 show ?thesis unfolding o by blast
qed

theorem C6_stored_min_max_witness:
  "0 < sint (1 :: 32 word)
   \<and> bucket_range indefinite (sint (1 :: 32 word)) (samplesPerBucket (sint (1 :: 32 word)) (sint (1 :: 32 word))) 0 = (0, 1)
   \<and> scan (buffer [0x3F000000] (\<lambda>i. 0)) 0 1 (Fin 1, Fin (- 1), []) = (Fin (1 / 2), Fin (1 / 2), [0])
   \<and> valof32 (buffer [0x3F000000] (\<lambda>i. 0) 0) \<noteq> NaN
   \<and> convertible (fmul round32 (Fin (1 / 2)) (Fin 32768))
   \<and> convertible (fmul round32 (Fin (1 / 2)) (Fin 32767))
   \<and> (\<exists>st. compute_peaks indefinite (Some (buffer [0x3F000000] (\<lambda>i. 0))) 1 1 (Some (\<lambda>i. 0)) = Some st
        \<and> writes st = [(0, 16384), (1, 16383)]
        \<and> sint (out st (int_mul 0 2)) \<le> sint (out st (int_add (int_mul 0 2) 1)) + 1)"
proof -
  have p: "0 < sint (1 :: 32 word)" by simp
  define st where "st = after (fresh (\<lambda>i. 0)) [0] [(0, 16384), (1, 16383)]"
  have h: "compute_peaks indefinite (Some (buffer [0x3F000000] (\<lambda>i. 0))) 1 1 (Some (\<lambda>i. 0)) = Some st"
    by (simp add: compute_peaks_valid run_half st_def)
  have r: "bucket_range indefinite (sint (1 :: 32 word)) (samplesPerBucket (sint (1 :: 32 word)) (sint (1 :: 32 word))) 0 = (0, 1)"
    by (simp add: range_1_1)
  have s: "scan (buffer [0x3F000000] (\<lambda>i. 0)) 0 1 (Fin 1, Fin (- 1), []) = (Fin (1 / 2), Fin (1 / 2), [0])"
    by code_simp
  have v: "valof32 (buffer [0x3F000000] (\<lambda>i. 0) 0) \<noteq> NaN"
    by (simp add: buffer_def val_half)
  have c1: "convertible (fmul round32 (Fin (1 / 2)) (Fin 32768))" by code_simp
  have c2: "convertible (fmul round32 (Fin (1 / 2)) (Fin 32767))" by code_simp
  have w: "writes st = [(0, 16384), (1, 16383)]" by (simp add: st_def)
  from C6_stored_min_max [OF p p h _ _ r s _ _ v c1 c2]
  have "sint (out st (int_mul 0 2)) \<le> sint (out st (int_add (int_mul 0 2) 1)) + 1" by simp
  with p r s v c1 c2 h w show ?thesis by blast
qed

text \<open>
  The claim as stated fails in three ways. On the single sample \<open>0.5\<close> the call stores
  the minimum \<open>16384\<close> and the maximum \<open>16383\<close>, and \<open>16384 / 32768 > 16383 / 32767\<close>:
  the two scale factors differ and both products are rounded toward zero. On a single
  NaN the call stores \<open>32767\<close> and \<open>-32767\<close>, the initial bounds. On the single sample
  \<open>1e10\<close> the conversion of \<open>maxVal * 32767.0f\<close> is out of range, and with the \<open>-2^31\<close> that
  x86 gives for it the call stores \<open>32767\<close> and \<open>-32768\<close>.
\<close>

theorem C6_counterexample:
  "valof32 0x3F000000 = Fin (1 / 2)
   \<and> compute_peaks indefinite (Some (buffer [0x3F000000] (\<lambda>i. 0))) 1 1 (Some (\<lambda>i. 0))
       = Some (after (fresh (\<lambda>i. 0)) [0] [(0, 16384), (1, 16383)])
   \<and> sint (out (after (fresh (\<lambda>i. 0)) [0] [(0, 16384), (1, 16383)]) 0) = 16384
   \<and> sint (out (after (fresh (\<lambda>i. 0)) [0] [(0, 16384), (1, 16383)]) 1) = 16383
   \<and> \<not> ((16384 :: rat) / 32768 \<le> 16383 / 32767)
   \<and> valof32 0x7FC00000 = NaN
   \<and> compute_peaks indefinite (Some (buffer [0x7FC00000] (\<lambda>i. 0))) 1 1 (Some (\<lambda>i. 0))
       = Some (after (fresh (\<lambda>i. 0)) [0] [(0, 32767), (1, - 32767)])
   \<and> sint (out (after (fresh (\<lambda>i. 0)) [0] [(0, 32767), (1, - 32767)]) 0) = 32767
   \<and> sint (out (after (fresh (\<lambda>i. 0)) [0] [(0, 32767), (1, - 32767)]) 1) = - 32767
   \<and> valof32 0x501502F9 = Fin 10000000000
   \<and> \<not> convertible (fmul round32 (Fin 10000000000) (Fin 32767))
   \<and> compute_peaks indefinite (Some (buffer [0x501502F9] (\<lambda>i. 0))) 1 1 (Some (\<lambda>i. 0))
       = Some (after (fresh (\<lambda>i. 0)) [0] [(0, 32767), (1, - 32768)])
   \<and> sint (out (after (fresh (\<lambda>i. 0)) [0] [(0, 32767), (1, - 32768)]) 0) = 32767
   \<and> sint (out (after (fresh (\<lambda>i. 0)) [0] [(0, 32767), (1, - 32768)]) 1) = - 32768"
proof -
  have "\<not> convertible (fmul round32 (Fin 10000000000) (Fin 32767))" by code_simp
  then show ?thesis
    by (simp add: val_half val_nan val_huge compute_peaks_valid run_half run_nan run_huge
        replay_def int16_of_int_def)
qed

text \<open>
  C7. A valid call makes \<open>2 * buckets\<close> stores, whatever the samples are and whatever
  the conversions of lines 32 and 33 give. Every value handed to a store has been
  clamped by line 35 or 36: it lies between \<open>-32768\<close> and \<open>32767\<close>, so the narrowing to
  \<^verbatim>\<open>int16_t\<close> keeps it, and the entry reads back as that value when the call returns.
\<close>

theorem C7_written_values_in_range:
  assumes p: "0 < sint len" "0 < sint buckets"
  shows "\<exists>st. compute_peaks pf (Some samples) len buckets (Some buf) = Some st
     \<and> length (writes st) = nat (2 * sint buckets)
     \<and> (\<forall>(i, v) \<in> set (writes st).
           - 32768 \<le> v \<and> v \<le> 32767 \<and> sint (int16_of_int v) = v \<and> sint (out st i) = v)"
proof -
  let ?spb = "samplesPerBucket (sint len) (sint buckets)"
  let ?E = "entries pf samples (sint len) ?spb"
  from run_structure [OF p, of pf samples buf] obtain st
    where st: "compute_peaks pf (Some samples) len buckets (Some buf) = Some st"
      "writes st = concat (map ?E [0..sint buckets - 1])"
      "distinct (map fst (writes st))" "length (writes st) = nat (2 * sint buckets)"
      "out st = replay buf (writes st)" by blast
  have "- 32768 \<le> v \<and> v \<le> 32767 \<and> sint (int16_of_int v) = v \<and> sint (out st i) = v"
    if iv: "(i, v) \<in> set (writes st)" for i v
  proof -
    from iv obtain b where "(i, v) \<in> set (?E b)" unfolding st(2) by auto
    then have r: "- 32768 \<le> v \<and> v \<le> 32767" by (rule entries_values)
    have o: "out st i = int16_of_int v"
      unfolding st(5) by (rule replay_written [OF st(3) iv])
    from r have "sint (int16_of_int v) = v" by (intro sint_int16) simp_all
    with r show ?thesis unfolding o by blast
  qed
  then have "\<forall>(i, v) \<in> set (writes st).
      - 32768 \<le> v \<and> v \<le> 32767 \<and> sint (int16_of_int v) = v \<and> sint (out st i) = v"
    by blast
  with st(1,4) show ?thesis by blast
qed

theorem C7_written_values_in_range_witness:
  "0 < sint (1 :: 32 word)
   \<and> valof32 0x501502F9 = Fin 10000000000
   \<and> (\<exists>st. compute_peaks indefinite (Some (buffer [0x501502F9] (\<lambda>i. 0))) 1 1 (Some (\<lambda>i. 0)) = Some st
         \<and> writes st = [(0, 32767), (1, - 32768)]
         \<and> length (writes st) = nat (2 * sint (1 :: 32 word))
         \<and> sint (out st 0) = 32767 \<and> sint (out st 1) = - 32768)"
proof -
  have p: "0 < sint (1 :: 32 word)" by simp
  from C7_written_values_in_range [OF p p, of indefinite "buffer [0x501502F9] (\<lambda>i. 0)" "\<lambda>i. 0"]
  obtain st where st: "compute_peaks indefinite (Some (buffer [0x501502F9] (\<lambda>i. 0))) 1 1 (Some (\<lambda>i. 0)) = Some st"
    "length (writes st) = nat (2 * sint (1 :: 32 word))"
    "\<forall>(i, v) \<in> set (writes st). - 32768 \<le> v \<and> v \<le> 32767 \<and> sint (int16_of_int v) = v \<and> sint (out st i) = v"
    by blast
  from st(1) have w: "writes st = [(0, 32767), (1, - 32768)]"
    by (auto simp: compute_peaks_valid run_huge)
  with st(3) have "sint (out st 0) = 32767" "sint (out st 1) = - 32768" by auto
  with p val_huge st(1,2) w show ?thesis by blast
qed

text \<open>
  C8. The claim holds of every valid call with \<open>buckets \<le> 2^30\<close>, whatever the samples
  (lemma \<open>deterministic_write_only\<close>): the output buffer is never read, and the entries
  \<open>0, \<dots>, 2 * buckets - 1\<close> are all written with values that depend on \<open>samples\<close>, \<open>len\<close>
  and \<open>buckets\<close> only. It fails beyond, because the index \<^verbatim>\<open>bucket * 2\<close> of lines 35 and
  36 is computed in \<^verbatim>\<open>int\<close> and wraps from the bucket \<open>2^30\<close> on. In the valid call
  \<open>len = 1\<close>, \<open>buckets = 2^30 + 1\<close> the entry \<open>2^31\<close>, which is below \<open>2 * buckets\<close>, is
  never written: started on a buffer of zeros it holds 0 when the call returns,
  started on a buffer of sevens it holds 7.
\<close>

theorem C8_unwritten_entry:
  "sint (1 :: 32 word) = 1 \<and> sint (1073741825 :: 32 word) = 1073741825
   \<and> (0 :: int) \<le> 2147483648 \<and> (2147483648 :: int) < 2 * 1073741825
   \<and> (\<exists>st1 st2.
         compute_peaks indefinite (Some (\<lambda>i. 0)) 1 1073741825 (Some (\<lambda>i. 0)) = Some st1
       \<and> compute_peaks indefinite (Some (\<lambda>i. 0)) 1 1073741825 (Some (\<lambda>i. 7)) = Some st2
       \<and> out st1 2147483648 = 0 \<and> out st2 2147483648 = 7)"
proof -
  have p: "0 < sint (1 :: 32 word)" "0 < sint (1073741825 :: 32 word)" by simp_all
  from run_structure [OF p, of indefinite "\<lambda>i. 0" "\<lambda>i. 0"] obtain st1
    where 1: "compute_peaks indefinite (Some (\<lambda>i. 0)) 1 1073741825 (Some (\<lambda>i. 0)) = Some st1"
      "map fst (writes st1) = map wrap32 [0..2 * sint (1073741825 :: 32 word) - 1]"
      "out st1 = replay (\<lambda>i. 0) (writes st1)" by blast
  from run_structure [OF p, of indefinite "\<lambda>i. 0" "\<lambda>i. 7"] obtain st2
    where 2: "compute_peaks indefinite (Some (\<lambda>i. 0)) 1 1073741825 (Some (\<lambda>i. 7)) = Some st2"
      "map fst (writes st2) = map wrap32 [0..2 * sint (1073741825 :: 32 word) - 1]"
      "out st2 = replay (\<lambda>i. 7) (writes st2)" by blast
  have "out st1 2147483648 = 0" "out st2 2147483648 = 7"
    unfolding 1(3) 2(3) using unwritten [OF 1(2)] unwritten [OF 2(2)] by simp_all
  with 1(1) 2(1) show ?thesis by auto
qed

text \<open>
  C9. The range of a bucket depends on \<open>len\<close>, \<open>buckets\<close> and the bucket only. In two
  valid calls with the same \<open>len\<close> and \<open>buckets\<close> whose samples agree on the range of a
  bucket \<open>b\<close>, whatever the other samples and the two output buffers are, the two stores
  of the bucket are the same, index and value, and when the calls return the two
  entries of the bucket are the same in both buffers. The entries are those of the
  indices \<^verbatim>\<open>bucket * 2\<close> and \<^verbatim>\<open>bucket * 2 + 1\<close> as the code computes them, which are
  \<open>2 * b\<close> and \<open>2 * b + 1\<close> for \<open>b < 2^30\<close>; at the indices \<open>2 * b\<close> and \<open>2 * b + 1\<close> the two
  buffers agree after the calls for every bucket, if they did before.
\<close>

theorem C9_bucket_locality:
  assumes p: "0 < sint len" "0 < sint buckets"
    and r1: "compute_peaks pf (Some samples1) len buckets (Some buf1) = Some st1"
    and r2: "compute_peaks pf (Some samples2) len buckets (Some buf2) = Some st2"
    and b: "0 \<le> b" "b < sint buckets"
    and rng: "bucket_range pf (sint len) (samplesPerBucket (sint len) (sint buckets)) b = (s, en)"
    and agree: "\<forall>i. s \<le> i \<and> i < en \<longrightarrow> samples1 i = samples2 i"
  shows "entries pf samples1 (sint len) (samplesPerBucket (sint len) (sint buckets)) b
           = entries pf samples2 (sint len) (samplesPerBucket (sint len) (sint buckets)) b
     \<and> set (entries pf samples1 (sint len) (samplesPerBucket (sint len) (sint buckets)) b)
           \<subseteq> set (writes st1) \<inter> set (writes st2)
     \<and> out st1 (int_mul b 2) = out st2 (int_mul b 2)
     \<and> out st1 (int_add (int_mul b 2) 1) = out st2 (int_add (int_mul b 2) 1)
     \<and> (b < 1073741824 \<longrightarrow>
          out st1 (2 * b) = out st2 (2 * b) \<and> out st1 (2 * b + 1) = out st2 (2 * b + 1))
     \<and> (buf1 (2 * b) = buf2 (2 * b) \<and> buf1 (2 * b + 1) = buf2 (2 * b + 1) \<longrightarrow>
          out st1 (2 * b) = out st2 (2 * b) \<and> out st1 (2 * b + 1) = out st2 (2 * b + 1))"
proof -
  let ?spb = "samplesPerBucket (sint len) (sint buckets)"
  have meq: "map (\<lambda>i. valof32 (samples1 i)) [s..en - 1] = map (\<lambda>i. valof32 (samples2 i)) [s..en - 1]"
    using agree by simp
  have ex: "spec_extremes samples1 s en = spec_extremes samples2 s en"
    unfolding spec_extremes_def by (simp only: meq)
  have E: "entries pf samples1 (sint len) ?spb b = entries pf samples2 (sint len) ?spb b"
    by (simp add: entries_eq rng ex)
  have W: "set (entries pf samples1 (sint len) ?spb b) \<subseteq> set (writes st1) \<inter> set (writes st2)"
    using entries_written [OF p r1 b] entries_written [OF p r2 b] unfolding E by blast
  from stored_bucket [OF p r1 b rng] stored_bucket [OF p r2 b rng]
  have O: "out st1 (int_mul b 2) = out st2 (int_mul b 2)"
    "out st1 (int_add (int_mul b 2) 1) = out st2 (int_add (int_mul b 2) 1)"
    by (simp_all add: ex)
  have I: "b < 1073741824 \<longrightarrow>
      out st1 (2 * b) = out st2 (2 * b) \<and> out st1 (2 * b + 1) = out st2 (2 * b + 1)"
    using O index_id [OF b(1)] by auto
  have B: "buf1 (2 * b) = buf2 (2 * b) \<and> buf1 (2 * b + 1) = buf2 (2 * b + 1) \<longrightarrow>
      out st1 (2 * b) = out st2 (2 * b) \<and> out st1 (2 * b + 1) = out st2 (2 * b + 1)"
  proof (cases "b < 1073741824")
    case True
    with I show ?thesis by blast
  next
    case False
    from run_structure [OF p, of pf samples1 buf1] r1
    have 1: "map fst (writes st1) = map wrap32 [0..2 * sint buckets - 1]"
      "out st1 = replay buf1 (writes st1)" by auto
    from run_structure [OF p, of pf samples2 buf2] r2
    have 2: "map fst (writes st2) = map wrap32 [0..2 * sint buckets - 1]"
      "out st2 = replay buf2 (writes st2)" by auto
    from False have i: "2147483648 \<le> 2 * b" "2147483648 \<le> 2 * b + 1" by simp_all
    show ?thesis
      unfolding 1(2) 2(2) unwritten [OF 1(1) i(1)] unwritten [OF 1(1) i(2)]
        unwritten [OF 2(1) i(1)] unwritten [OF 2(1) i(2)]
      by simp
  qed
  from E W O I B show ?thesis by blast
qed

theorem C9_bucket_locality_witness:
  "0 < sint (2 :: 32 word)
   \<and> bucket_range indefinite (sint (2 :: 32 word)) (samplesPerBucket (sint (2 :: 32 word)) (sint (2 :: 32 word))) 0 = (0, 1)
   \<and> buffer [0x3F000000, 0x00000000 :: 32 word] (\<lambda>i. 0) 0 = buffer [0x3F000000, 0x3F800000] (\<lambda>i. 0) 0
   \<and> buffer [0x3F000000, 0x00000000 :: 32 word] (\<lambda>i. 0) 1 \<noteq> buffer [0x3F000000, 0x3F800000] (\<lambda>i. 0) 1
   \<and> (\<exists>st1 st2.
        compute_peaks indefinite (Some (buffer [0x3F000000, 0x00000000] (\<lambda>i. 0))) 2 2 (Some (\<lambda>i. 0)) = Some st1
      \<and> compute_peaks indefinite (Some (buffer [0x3F000000, 0x3F800000] (\<lambda>i. 0))) 2 2 (Some (\<lambda>i. 7)) = Some st2
      \<and> writes st1 = [(0, 16384), (1, 16383), (2, 0), (3, 0)]
      \<and> writes st2 = [(0, 16384), (1, 16383), (2, 32767), (3, 32767)]
      \<and> out st1 (2 * 0) = out st2 (2 * 0) \<and> out st1 (2 * 0 + 1) = out st2 (2 * 0 + 1))"
proof -
  have p: "0 < sint (2 :: 32 word)" by simp
  define st1 where "st1 = after (fresh (\<lambda>i. 0)) [0, 1] [(0, 16384), (1, 16383), (2, 0), (3, 0)]"
  define st2 where "st2 = after (fresh (\<lambda>i. 7)) [0, 1] [(0, 16384), (1, 16383), (2, 32767), (3, 32767)]"
  have h1: "compute_peaks indefinite (Some (buffer [0x3F000000, 0x00000000] (\<lambda>i. 0))) 2 2 (Some (\<lambda>i. 0)) = Some st1"
    by (simp add: compute_peaks_valid run_half_zero st1_def)
  have h2: "compute_peaks indefinite (Some (buffer [0x3F000000, 0x3F800000] (\<lambda>i. 0))) 2 2 (Some (\<lambda>i. 7)) = Some st2"
    by (simp add: compute_peaks_valid run_half_one st2_def)
  have r: "bucket_range indefinite (sint (2 :: 32 word)) (samplesPerBucket (sint (2 :: 32 word)) (sint (2 :: 32 word))) 0 = (0, 1)"
    by (simp add: range_2_2)
  have a: "\<forall>i. 0 \<le> i \<and> i < 1 \<longrightarrow>
      buffer [0x3F000000, 0x00000000 :: 32 word] (\<lambda>i. 0) i = buffer [0x3F000000, 0x3F800000] (\<lambda>i. 0) i"
    by (simp add: below_1 buffer_def)
  have d: "buffer [0x3F000000, 0x00000000 :: 32 word] (\<lambda>i. 0) 1 \<noteq> buffer [0x3F000000, 0x3F800000] (\<lambda>i. 0) 1"
    by (simp add: buffer_def)
  have w: "writes st1 = [(0, 16384), (1, 16383), (2, 0), (3, 0)]"
    "writes st2 = [(0, 16384), (1, 16383), (2, 32767), (3, 32767)]"
    by (simp_all add: st1_def st2_def)
  from C9_bucket_locality [OF p p h1 h2 _ _ r a]
  have "out st1 (2 * 0) = out st2 (2 * 0) \<and> out st1 (2 * 0 + 1) = out st2 (2 * 0 + 1)" by simp
  with p h1 h2 r a d w show ?thesis by (simp add: buffer_def)
qed

text \<open>
  C10. A sample that is NaN leaves the running minimum and the running maximum as they
  are, since both comparisons of lines 28 and 29 are false: the extremes that the
  scan of a range finds are those of its samples that are not NaN. So a bucket whose
  range holds NaN samples only keeps the initial bounds \<open>1.0\<close> and \<open>-1.0\<close>, and its two
  stores are those of \<open>32767\<close> and of \<open>-32767\<close>, which its two entries hold when the
  call returns.
\<close>

theorem C10_nan_ignored:
  assumes p: "0 < sint len" "0 < sint buckets"
    and run: "compute_peaks pf (Some samples) len buckets (Some buf) = Some st"
    and b: "0 \<le> b" "b < sint buckets"
    and rng: "bucket_range pf (sint len) (samplesPerBucket (sint len) (sint buckets)) b = (s, en)"
  shows "(\<forall>i e minVal maxVal rs. i < e \<and> valof32 (samples i) = NaN \<longrightarrow>
            scan samples i e (minVal, maxVal, rs) = scan samples (i + 1) e (minVal, maxVal, rs @ [i]))
    \<and> scan samples s en (Fin 1, Fin (- 1), []) =
        (foldl lower (Fin 1) (filter (\<lambda>v. v \<noteq> NaN) (map (\<lambda>i. valof32 (samples i)) [s..en - 1])),
         foldl upper (Fin (- 1)) (filter (\<lambda>v. v \<noteq> NaN) (map (\<lambda>i. valof32 (samples i)) [s..en - 1])),
         [s..en - 1])
    \<and> ((\<forall>i. s \<le> i \<and> i < en \<longrightarrow> valof32 (samples i) = NaN) \<longrightarrow>
          scan samples s en (Fin 1, Fin (- 1), []) = (Fin 1, Fin (- 1), [s..en - 1])
        \<and> entries pf samples (sint len) (samplesPerBucket (sint len) (sint buckets)) b
            = [(int_mul b 2, 32767), (int_add (int_mul b 2) 1, - 32767)]
        \<and> (int_mul b 2, 32767) \<in> set (writes st)
        \<and> (int_add (int_mul b 2) 1, - 32767) \<in> set (writes st)
        \<and> sint (out st (int_mul b 2)) = 32767
        \<and> sint (out st (int_add (int_mul b 2) 1)) = - 32767)"
proof -
  let ?vs = "map (\<lambda>i. valof32 (samples i)) [s..en - 1]"
  have step: "\<forall>i e minVal maxVal rs. i < e \<and> valof32 (samples i) = NaN \<longrightarrow>
      scan samples i e (minVal, maxVal, rs) = scan samples (i + 1) e (minVal, maxVal, rs @ [i])"
  proof (intro allI impI)
    fix i e minVal maxVal rs assume i: "i < e \<and> valof32 (samples i) = NaN"
    then show "scan samples i e (minVal, maxVal, rs) = scan samples (i + 1) e (minVal, maxVal, rs @ [i])"
      by (subst scan.simps) simp
  qed
  have filt: "scan samples s en (Fin 1, Fin (- 1), []) =
        (foldl lower (Fin 1) (filter (\<lambda>v. v \<noteq> NaN) ?vs),
         foldl upper (Fin (- 1)) (filter (\<lambda>v. v \<noteq> NaN) ?vs), [s..en - 1])"
    by (simp add: scan_eq fold_filter_nan)
  have all: "scan samples s en (Fin 1, Fin (- 1), []) = (Fin 1, Fin (- 1), [s..en - 1])
        \<and> entries pf samples (sint len) (samplesPerBucket (sint len) (sint buckets)) b
            = [(int_mul b 2, 32767), (int_add (int_mul b 2) 1, - 32767)]
        \<and> (int_mul b 2, 32767) \<in> set (writes st)
        \<and> (int_add (int_mul b 2) 1, - 32767) \<in> set (writes st)
        \<and> sint (out st (int_mul b 2)) = 32767
        \<and> sint (out st (int_add (int_mul b 2) 1)) = - 32767"
    if nan: "\<forall>i. s \<le> i \<and> i < en \<longrightarrow> valof32 (samples i) = NaN"
  proof -
    from nan have "\<forall>v \<in> set ?vs. v = NaN" by auto
    note f = fold_nan [OF this, of "Fin 1" "Fin (- 1)"]
    have sc: "scan samples s en (Fin 1, Fin (- 1), []) = (Fin 1, Fin (- 1), [s..en - 1])"
      by (simp add: scan_eq f)
    have ex: "spec_extremes samples s en = (Fin 1, Fin (- 1))"
      by (simp add: spec_extremes_def f)
    have r1: "round32 32768 = Fin 32768" by code_simp
    have r2: "round32 (- 32767) = Fin (- 32767)" by code_simp
    have sc2: "scaled pf (Fin 1, Fin (- 1)) = (32767, - 32767)"
      by (simp add: scaled_def r1 r2 f2i_def trunc_def in_int32_def clamp16_def)
    have E: "entries pf samples (sint len) (samplesPerBucket (sint len) (sint buckets)) b
            = [(int_mul b 2, 32767), (int_add (int_mul b 2) 1, - 32767)]"
      by (simp add: entries_eq rng ex sc2 index_wrap)
    from stored_bucket [OF p run b rng]
    have "out st (int_mul b 2) = int16_of_int 32767"
      "out st (int_add (int_mul b 2) 1) = int16_of_int (- 32767)"
      "(int_mul b 2, 32767) \<in> set (writes st)"
      "(int_add (int_mul b 2) 1, - 32767) \<in> set (writes st)"
      by (simp_all add: ex sc2)
    then show ?thesis using sc E by (simp add: sint_int16)
  qed
  from step filt all show ?thesis by blast
qed

theorem C10_nan_ignored_witness:
  "0 < sint (1 :: 32 word)
   \<and> bucket_range indefinite (sint (1 :: 32 word)) (samplesPerBucket (sint (1 :: 32 word)) (sint (1 :: 32 word))) 0 = (0, 1)
   \<and> valof32 (buffer [0x7FC00000] (\<lambda>i. 0) 0) = NaN
   \<and> scan (buffer [0x7FC00000] (\<lambda>i. 0)) 0 1 (Fin 1, Fin (- 1), []) = (Fin 1, Fin (- 1), [0..1 - 1])
   \<and> (\<exists>st. compute_peaks indefinite (Some (buffer [0x7FC00000] (\<lambda>i. 0))) 1 1 (Some (\<lambda>i. 0)) = Some st
        \<and> writes st = [(0, 32767), (1, - 32767)]
        \<and> sint (out st (int_mul 0 2)) = 32767
        \<and> sint (out st (int_add (int_mul 0 2) 1)) = - 32767)"
proof -
  have p: "0 < sint (1 :: 32 word)" by simp
  define st where "st = after (fresh (\<lambda>i. 0)) [0] [(0, 32767), (1, - 32767)]"
  have h: "compute_peaks indefinite (Some (buffer [0x7FC00000] (\<lambda>i. 0))) 1 1 (Some (\<lambda>i. 0)) = Some st"
    by (simp add: compute_peaks_valid run_nan st_def)
  have r: "bucket_range indefinite (sint (1 :: 32 word)) (samplesPerBucket (sint (1 :: 32 word)) (sint (1 :: 32 word))) 0 = (0, 1)"
    by (simp add: range_1_1)
  have v: "valof32 (buffer [0x7FC00000] (\<lambda>i. 0) 0) = NaN"
    by (simp add: buffer_def val_nan)
  then have n: "\<forall>i. 0 \<le> i \<and> i < 1 \<longrightarrow> valof32 (buffer [0x7FC00000] (\<lambda>i. 0) i) = NaN"
    by (simp add: below_1)
  have w: "writes st = [(0, 32767), (1, - 32767)]" by (simp add: st_def)
  from C10_nan_ignored [OF p p h _ _ r] n
  have "scan (buffer [0x7FC00000] (\<lambda>i. 0)) 0 1 (Fin 1, Fin (- 1), []) = (Fin 1, Fin (- 1), [0..1 - 1])
     \<and> sint (out st (int_mul 0 2)) = 32767 \<and> sint (out st (int_add (int_mul 0 2) 1)) = - 32767"
    by simp
  with p r v h w show ?thesis by blast
qed

end
